theory Spec2Isabelle
  imports Complex_Main "HOL-Library.AList"
begin

section \<open>The thumbnail cache of ThumbnailModel.cpp\<close>

text \<open>
  The model follows \<^verbatim>\<open>src/app/model/ThumbnailModel.cpp\<close> function by function.
  The object's members are the fields of the record \<open>ThumbnailModel\<close>; every member
  function takes the object and returns the updated object.

  \<^item> The \<^verbatim>\<open>QHash\<close> members are association lists. The order of the list is the
    iteration order of the hash, about which Qt promises nothing: the theorems below
    hold for every order. Keys of a \<^verbatim>\<open>QHash\<close> are unique; the predicate \<open>store_wf\<close>
    says so.
  \<^item> \<^verbatim>\<open>QDateTime::currentMSecsSinceEpoch()\<close> is the argument \<open>now\<close> of each operation
    that reads the clock (one reading per operation).
  \<^item> C++ integers are \<open>int\<close>; the two sentinels \<^verbatim>\<open>INT_MAX\<close> and \<^verbatim>\<open>LLONG_MAX\<close> of the
    frequency scan are kept. The arithmetic on the item-count ceiling and on the access
    counts (\<^verbatim>\<open>m_maxCacheSize + 10\<close>, \<^verbatim>\<open>m_maxCacheSize - 5\<close>, \<^verbatim>\<open>m_maxCacheSize * 2\<close> and
    the increment of a count) is 32-bit: its results wrap around (\<open>int32\<close>), and the
    theorems that depend on it assume that it does not overflow, which is where the
    behaviour of the source is defined. The hit and miss counters, the byte totals and
    the time stamps are taken to stay in range.
  \<^item> \<^verbatim>\<open>double\<close> values are \<open>real\<close>. The hit ratio is a quotient of two 32-bit
    integers compared with 0.7, 0.5 and 0.8; the comparison of the rounded quotient with
    the rounded constant agrees with the exact one, because two different quotients of
    such integers are further apart than the rounding error.
  \<^item> Calls of \<^verbatim>\<open>m_generator->generateThumbnail\<close> are appended to the log
    \<open>generatorCalls\<close>. Qt signals, timers, logging and the mutex are left out.
  \<^item> A \<^verbatim>\<open>while\<close> loop whose body is an eviction is \<open>whileLoop\<close>, whose value is
    \<open>None\<close> when the loop runs forever.
\<close>

subsection \<open>Qt value types\<close>

text \<open>
  Of a pixmap the cache reads \<^verbatim>\<open>isNull()\<close>, \<^verbatim>\<open>width()\<close> and \<^verbatim>\<open>height()\<close>. \<open>Pixmap w h\<close> is
  a pixmap with contents, of width \<open>w\<close> and height \<open>h\<close>.
\<close>

datatype QPixmap = NullPixmap | Pixmap int int

fun isNull :: "QPixmap \<Rightarrow> bool" where
  "isNull NullPixmap = True"
| "isNull (Pixmap w h) = False"

fun pixmapWidth :: "QPixmap \<Rightarrow> int" where
  "pixmapWidth NullPixmap = 0"
| "pixmapWidth (Pixmap w h) = w"

fun pixmapHeight :: "QPixmap \<Rightarrow> int" where
  "pixmapHeight NullPixmap = 0"
| "pixmapHeight (Pixmap w h) = h"

type_synonym QSize = "int \<times> int"

definition sizeIsEmpty :: "QSize \<Rightarrow> bool" where
  "sizeIsEmpty sz = (fst sz \<le> 0 \<or> snd sz \<le> 0)"

record QModelIndex =
  indexRow :: int
  indexColumn :: int
  indexHasModel :: bool

definition isValid :: "QModelIndex \<Rightarrow> bool" where
  "isValid idx = (indexRow idx \<ge> 0 \<and> indexColumn idx \<ge> 0 \<and> indexHasModel idx)"

datatype QVariant =
  Invalid | VInt int | VBool bool | VString string | VPixmap QPixmap | VSize QSize

datatype ItemRole =
  PageNumberRole | PixmapRole | LoadingRole | ErrorRole | ErrorMessageRole | PageSizeRole
  | OtherRole int

definition INT_MAX :: int where
  "INT_MAX = 2147483647"

definition LLONG_MAX :: int where
  "LLONG_MAX = 9223372036854775807"

text \<open>
  The \<^verbatim>\<open>int\<close> that holds the result of a 32-bit operation whose exact result is \<open>x\<close>:
  \<open>x\<close> itself when it is in range, wrapped around (two's complement) otherwise.
\<close>

definition int32 :: "int \<Rightarrow> int" where
  "int32 x = (x + 2147483648) mod 4294967296 - 2147483648"

subsection \<open>The object\<close>

record ThumbnailItem =
  pixmap :: QPixmap
  isLoading :: bool
  hasError :: bool
  errorMessage :: string
  lastAccessed :: int
  memorySize :: int
  pageSize :: QSize

text \<open>
  Modelled from the spec: \<^verbatim>\<open>struct ThumbnailItem\<close> is declared in ThumbnailModel.h, which
  is not among the sources. A fresh entry has no image, is neither loading nor errored,
  has no error detail and costs 0 bytes (spec, section 3); a default \<^verbatim>\<open>QPixmap\<close> is null
  and a default \<^verbatim>\<open>QSize\<close> is \<open>(-1, -1)\<close>. The spec does not give the initial
  \<open>lastAccessed\<close>; it is 0 here, and \<open>requestThumbnail\<close> overwrites it.
\<close>

definition ThumbnailItem_default :: ThumbnailItem where
  "ThumbnailItem_default =
     \<lparr>pixmap = NullPixmap, isLoading = False, hasError = False, errorMessage = [],
      lastAccessed = 0, memorySize = 0, pageSize = (-1, -1)\<rparr>"

text \<open>
  Of the Poppler document the model needs the number of pages and, for each page, its
  size (\<open>None\<close> when \<^verbatim>\<open>page(n)\<close> is null).
\<close>

record Document =
  numPages :: int
  docPage :: "int \<Rightarrow> QSize option"

record ThumbnailModel =
  m_document :: "Document option"
  m_thumbnails :: "(int \<times> ThumbnailItem) list"
  m_thumbnailSize :: QSize
  m_thumbnailQuality :: real
  m_maxCacheSize :: int
  m_maxMemory :: int
  m_currentMemory :: int
  m_cacheHits :: int
  m_cacheMisses :: int
  m_preloadQueue :: "int set"
  m_preloadRange :: int
  m_visibleStart :: int
  m_visibleEnd :: int
  m_viewportMargin :: int
  m_lazyLoadingEnabled :: bool
  m_adaptiveCaching :: bool
  m_lastCleanupTime :: int
  m_pagePriorities :: "(int \<times> int) list"
  m_accessFrequency :: "(int \<times> int) list"
  generatorCalls :: "(int \<times> QSize \<times> real \<times> int) list"

text \<open>
  The constructor. The constants \<^verbatim>\<open>DEFAULT_THUMBNAIL_WIDTH\<close>, \<^verbatim>\<open>DEFAULT_THUMBNAIL_HEIGHT\<close>,
  \<^verbatim>\<open>DEFAULT_QUALITY\<close>, \<^verbatim>\<open>DEFAULT_CACHE_SIZE\<close>, \<^verbatim>\<open>DEFAULT_MEMORY_LIMIT\<close> and
  \<^verbatim>\<open>DEFAULT_PRELOAD_RANGE\<close> are declared in the header; they are parameters here.
\<close>

definition newThumbnailModel :: "QSize \<Rightarrow> real \<Rightarrow> int \<Rightarrow> int \<Rightarrow> int \<Rightarrow> ThumbnailModel" where
  "newThumbnailModel defaultSize defaultQuality defaultCacheSize defaultMemoryLimit
       defaultPreloadRange =
     \<lparr>m_document = None, m_thumbnails = [], m_thumbnailSize = defaultSize,
      m_thumbnailQuality = defaultQuality, m_maxCacheSize = defaultCacheSize,
      m_maxMemory = defaultMemoryLimit, m_currentMemory = 0, m_cacheHits = 0,
      m_cacheMisses = 0, m_preloadQueue = {}, m_preloadRange = defaultPreloadRange,
      m_visibleStart = -1, m_visibleEnd = -1, m_viewportMargin = 2,
      m_lazyLoadingEnabled = True, m_adaptiveCaching = True, m_lastCleanupTime = 0,
      m_pagePriorities = [], m_accessFrequency = [], generatorCalls = []\<rparr>"

text \<open>
  The guard \<^verbatim>\<open>!m_document || pageNumber < 0 || pageNumber >= m_document->numPages()\<close>,
  negated.
\<close>

definition pageInDocument :: "ThumbnailModel \<Rightarrow> int \<Rightarrow> bool" where
  "pageInDocument s pageNumber =
     (case m_document s of
        None \<Rightarrow> False
      | Some d \<Rightarrow> 0 \<le> pageNumber \<and> pageNumber < numPages d)"

text \<open>\<^verbatim>\<open>m_accessFrequency.value(pageNumber, 0)\<close>\<close>

definition frequencyOf :: "ThumbnailModel \<Rightarrow> int \<Rightarrow> int" where
  "frequencyOf s pageNumber =
     (case map_of (m_accessFrequency s) pageNumber of None \<Rightarrow> 0 | Some f \<Rightarrow> f)"

partial_function (option) whileLoop :: "('s \<Rightarrow> bool) \<Rightarrow> ('s \<Rightarrow> 's) \<Rightarrow> 's \<Rightarrow> 's option" where
  "whileLoop c body s = (if c s then whileLoop c body (body s) else Some s)"

declare whileLoop.simps [code]

subsection \<open>Viewport and priorities\<close>

definition isInViewport :: "ThumbnailModel \<Rightarrow> int \<Rightarrow> bool" where
  "isInViewport s pageNumber =
     (if m_visibleStart s < 0 \<or> m_visibleEnd s < 0 then True
      else
        (let expandedStart = max 0 (m_visibleStart s - m_viewportMargin s);
             expandedEnd = m_visibleEnd s + m_viewportMargin s
         in pageNumber \<ge> expandedStart \<and> pageNumber \<le> expandedEnd))"

definition shouldGenerateThumbnail :: "ThumbnailModel \<Rightarrow> int \<Rightarrow> bool" where
  "shouldGenerateThumbnail s pageNumber =
     (if \<not> m_lazyLoadingEnabled s then True else isInViewport s pageNumber)"

definition calculatePriority :: "ThumbnailModel \<Rightarrow> int \<Rightarrow> int" where
  "calculatePriority s pageNumber =
     (case map_of (m_pagePriorities s) pageNumber of Some v \<Rightarrow> v | None \<Rightarrow> 5)"

definition updateViewportPriorities :: "ThumbnailModel \<Rightarrow> ThumbnailModel" where
  "updateViewportPriorities s =
     (case m_document s of
        None \<Rightarrow> s
      | Some d \<Rightarrow>
          (let visible =
                 fold (\<lambda>i m. if i \<ge> 0 \<and> i < numPages d then AList.update i 0 m else m)
                   [m_visibleStart s..m_visibleEnd s] [];
               preloadStart = max 0 (m_visibleStart s - m_viewportMargin s);
               preloadEnd = min (numPages d - 1) (m_visibleEnd s + m_viewportMargin s);
               before = fold (\<lambda>i m. AList.update i 1 m)
                   [preloadStart..m_visibleStart s - 1] visible;
               after = fold (\<lambda>i m. AList.update i 1 m)
                   [m_visibleEnd s + 1..preloadEnd] before
           in s\<lparr>m_pagePriorities := after\<rparr>))"

definition setViewportRange :: "ThumbnailModel \<Rightarrow> int \<Rightarrow> int \<Rightarrow> int \<Rightarrow> ThumbnailModel" where
  "setViewportRange s start end margin =
     (let s1 = s\<lparr>m_visibleStart := start, m_visibleEnd := end, m_viewportMargin := margin\<rparr>
      in if m_lazyLoadingEnabled s1 then updateViewportPriorities s1 else s1)"

definition onPriorityUpdateTimer :: "ThumbnailModel \<Rightarrow> ThumbnailModel" where
  "onPriorityUpdateTimer s =
     (if m_lazyLoadingEnabled s then updateViewportPriorities s else s)"

subsection \<open>Access tracking and eviction\<close>

definition updateAccessFrequency :: "ThumbnailModel \<Rightarrow> int \<Rightarrow> ThumbnailModel" where
  "updateAccessFrequency s pageNumber =
     (let af = AList.update pageNumber (int32 (frequencyOf s pageNumber + 1))
                (m_accessFrequency s)
      in if int (length af) > int32 (m_maxCacheSize s * 2)
         then s\<lparr>m_accessFrequency := filter (\<lambda>e. \<not> snd e \<le> 1) af\<rparr>
         else s\<lparr>m_accessFrequency := af\<rparr>)"

text \<open>
  The scan of \<open>evictLeastRecentlyUsed\<close>: the accumulator is the iterator \<open>oldestIt\<close>
  (the entry it points to) and \<open>oldestTime\<close>.
\<close>

fun lruScan ::
  "(int \<times> ThumbnailItem) list \<Rightarrow> (int \<times> ThumbnailItem) \<times> int \<Rightarrow> (int \<times> ThumbnailItem) \<times> int"
where
  "lruScan [] acc = acc"
| "lruScan (it # rest) (oldestIt, oldestTime) =
     (if lastAccessed (snd it) < oldestTime
      then lruScan rest (it, lastAccessed (snd it))
      else lruScan rest (oldestIt, oldestTime))"

definition evictLeastRecentlyUsed :: "ThumbnailModel \<Rightarrow> ThumbnailModel" where
  "evictLeastRecentlyUsed s =
     (case m_thumbnails s of
        [] \<Rightarrow> s
      | first # _ \<Rightarrow>
          (let (oldestIt, oldestTime) = lruScan (m_thumbnails s) (first, lastAccessed (snd first))
           in s\<lparr>m_currentMemory := m_currentMemory s - memorySize (snd oldestIt),
                m_thumbnails := AList.delete (fst oldestIt) (m_thumbnails s)\<rparr>))"

text \<open>
  The scan of \<open>evictLeastFrequentlyUsed\<close>: the accumulator is \<open>leastFrequentPage\<close>,
  \<open>minFrequency\<close> and \<open>oldestTime\<close>.
\<close>

fun lfuScan ::
  "(int \<times> ThumbnailItem) list \<Rightarrow> (int \<times> int) list \<Rightarrow> int \<times> int \<times> int \<Rightarrow> int \<times> int \<times> int"
where
  "lfuScan [] af acc = acc"
| "lfuScan (it # rest) af (leastFrequentPage, minFrequency, oldestTime) =
     (let pageNumber = fst it;
          frequency = (case map_of af pageNumber of None \<Rightarrow> 0 | Some f \<Rightarrow> f)
      in if frequency < minFrequency \<or>
            (frequency = minFrequency \<and> lastAccessed (snd it) < oldestTime)
         then lfuScan rest af (pageNumber, frequency, lastAccessed (snd it))
         else lfuScan rest af (leastFrequentPage, minFrequency, oldestTime))"

definition evictLeastFrequentlyUsed :: "ThumbnailModel \<Rightarrow> ThumbnailModel" where
  "evictLeastFrequentlyUsed s =
     (if m_thumbnails s = [] then s
      else
        (let (leastFrequentPage, minFrequency, oldestTime) =
               lfuScan (m_thumbnails s) (m_accessFrequency s) (-1, INT_MAX, LLONG_MAX)
         in if leastFrequentPage \<ge> 0
            then (case map_of (m_thumbnails s) leastFrequentPage of
                    Some it \<Rightarrow>
                      s\<lparr>m_currentMemory := m_currentMemory s - memorySize it,
                        m_thumbnails := AList.delete leastFrequentPage (m_thumbnails s),
                        m_accessFrequency :=
                          AList.delete leastFrequentPage (m_accessFrequency s)\<rparr>
                  | None \<Rightarrow> s)
            else s))"

definition calculateCacheEfficiency :: "ThumbnailModel \<Rightarrow> real" where
  "calculateCacheEfficiency s =
     (let totalAccess = m_cacheHits s + m_cacheMisses s
      in if totalAccess = 0 then 1
         else real_of_int (m_cacheHits s) / real_of_int totalAccess)"

definition evictByAdaptivePolicy :: "ThumbnailModel \<Rightarrow> ThumbnailModel" where
  "evictByAdaptivePolicy s =
     (if \<not> m_adaptiveCaching s then evictLeastRecentlyUsed s
      else
        (let efficiency = calculateCacheEfficiency s
         in if efficiency > 0.7 then evictLeastRecentlyUsed s
            else evictLeastFrequentlyUsed s))"

definition adaptCacheSize :: "ThumbnailModel \<Rightarrow> int \<Rightarrow> ThumbnailModel" where
  "adaptCacheSize s now =
     (if now - m_lastCleanupTime s < 30000 then s
      else
        (let s1 = s\<lparr>m_lastCleanupTime := now\<rparr>;
             efficiency = calculateCacheEfficiency s1
         in if efficiency > 0.8 \<and>
               real_of_int (m_currentMemory s1) < real_of_int (m_maxMemory s1) * 0.8
            then s1\<lparr>m_maxCacheSize := min (int32 (m_maxCacheSize s1 + 10)) 300\<rparr>
            else if efficiency < 0.5
            then s1\<lparr>m_maxCacheSize := max (int32 (m_maxCacheSize s1 - 5)) 50\<rparr>
            else s1))"

definition cleanupCache :: "ThumbnailModel \<Rightarrow> int \<Rightarrow> ThumbnailModel option" where
  "cleanupCache s now =
     (if m_thumbnails s = [] then Some s
      else
        (case whileLoop (\<lambda>s. int (length (m_thumbnails s)) > m_maxCacheSize s)
                evictByAdaptivePolicy (adaptCacheSize s now) of
           None \<Rightarrow> None
         | Some s1 \<Rightarrow>
             whileLoop (\<lambda>s. m_currentMemory s > m_maxMemory s \<and> m_thumbnails s \<noteq> [])
               evictByAdaptivePolicy s1))"

definition setCacheSize :: "ThumbnailModel \<Rightarrow> int \<Rightarrow> ThumbnailModel option" where
  "setCacheSize s maxItems =
     whileLoop (\<lambda>s. int (length (m_thumbnails s)) > m_maxCacheSize s)
       evictLeastRecentlyUsed (s\<lparr>m_maxCacheSize := max 1 maxItems\<rparr>)"

definition setMemoryLimit :: "ThumbnailModel \<Rightarrow> int \<Rightarrow> ThumbnailModel option" where
  "setMemoryLimit s maxMemory =
     whileLoop (\<lambda>s. m_currentMemory s > m_maxMemory s \<and> m_thumbnails s \<noteq> [])
       evictLeastRecentlyUsed (s\<lparr>m_maxMemory := max (1024 * 1024) maxMemory\<rparr>)"

definition calculatePixmapMemory :: "QPixmap \<Rightarrow> int" where
  "calculatePixmapMemory pm =
     (if isNull pm then 0 else pixmapWidth pm * pixmapHeight pm * 4)"

definition updateMemoryUsage :: "ThumbnailModel \<Rightarrow> ThumbnailModel" where
  "updateMemoryUsage s =
     s\<lparr>m_currentMemory := fold (\<lambda>item totalMemory. totalMemory + memorySize (snd item))
                             (m_thumbnails s) 0\<rparr>"

subsection \<open>Requests, completions and invalidation\<close>

definition clearCache :: "ThumbnailModel \<Rightarrow> ThumbnailModel" where
  "clearCache s = s\<lparr>m_thumbnails := [], m_currentMemory := 0, m_preloadQueue := {}\<rparr>"

definition setDocument :: "ThumbnailModel \<Rightarrow> Document option \<Rightarrow> ThumbnailModel" where
  "setDocument s document = clearCache (s\<lparr>m_document := document\<rparr>)"

text \<open>
  The tail of \<open>requestThumbnail\<close>: \<open>item\<close> is the entry \<^verbatim>\<open>m_thumbnails[pageNumber]\<close> refers
  to (the entry found, or a fresh one), which is marked as loading; then the generator
  is called.
\<close>

definition beginLoad :: "ThumbnailModel \<Rightarrow> int \<Rightarrow> int \<Rightarrow> ThumbnailItem \<Rightarrow> ThumbnailModel" where
  "beginLoad s now pageNumber item =
     s\<lparr>m_thumbnails :=
         AList.update pageNumber
           (item\<lparr>isLoading := True, hasError := False, errorMessage := [],
                 lastAccessed := now\<rparr>)
           (m_thumbnails s),
       generatorCalls :=
         generatorCalls s @
           [(pageNumber, m_thumbnailSize s, m_thumbnailQuality s,
             calculatePriority s pageNumber)]\<rparr>"

definition requestThumbnail :: "ThumbnailModel \<Rightarrow> int \<Rightarrow> int \<Rightarrow> ThumbnailModel" where
  "requestThumbnail s now pageNumber =
     (if \<not> pageInDocument s pageNumber then s
      else if m_lazyLoadingEnabled s \<and> \<not> shouldGenerateThumbnail s pageNumber then s
      else
        (case map_of (m_thumbnails s) pageNumber of
           Some it \<Rightarrow>
             if \<not> isNull (pixmap it)
             then updateAccessFrequency
                    (s\<lparr>m_thumbnails :=
                         AList.update pageNumber (it\<lparr>lastAccessed := now\<rparr>) (m_thumbnails s)\<rparr>)
                    pageNumber
             else if isLoading it then s
             else beginLoad s now pageNumber
                    (if hasError it then it\<lparr>hasError := False, errorMessage := []\<rparr> else it)
         | None \<Rightarrow> beginLoad s now pageNumber ThumbnailItem_default))"

definition refreshThumbnail :: "ThumbnailModel \<Rightarrow> int \<Rightarrow> int \<Rightarrow> ThumbnailModel" where
  "refreshThumbnail s now pageNumber =
     (if \<not> pageInDocument s pageNumber then s
      else
        (let s1 = (case map_of (m_thumbnails s) pageNumber of
                     Some it \<Rightarrow>
                       s\<lparr>m_currentMemory := m_currentMemory s - memorySize it,
                         m_thumbnails := AList.delete pageNumber (m_thumbnails s)\<rparr>
                   | None \<Rightarrow> s)
         in requestThumbnail s1 now pageNumber))"

definition onThumbnailGenerated ::
  "ThumbnailModel \<Rightarrow> int \<Rightarrow> int \<Rightarrow> QPixmap \<Rightarrow> ThumbnailModel option"
where
  "onThumbnailGenerated s now pageNumber pm =
     (case map_of (m_thumbnails s) pageNumber of
        None \<Rightarrow> Some s
      | Some it \<Rightarrow>
          (let item = it\<lparr>pixmap := pm, isLoading := False, hasError := False,
                         errorMessage := [], lastAccessed := now,
                         memorySize := calculatePixmapMemory pm\<rparr>;
               s1 = s\<lparr>m_thumbnails := AList.update pageNumber item (m_thumbnails s),
                      m_currentMemory := m_currentMemory s + memorySize item\<rparr>
           in whileLoop
                (\<lambda>s. m_currentMemory s > m_maxMemory s \<and> length (m_thumbnails s) > 1)
                evictByAdaptivePolicy s1))"

definition onThumbnailError :: "ThumbnailModel \<Rightarrow> int \<Rightarrow> int \<Rightarrow> string \<Rightarrow> ThumbnailModel" where
  "onThumbnailError s now pageNumber error =
     (case map_of (m_thumbnails s) pageNumber of
        None \<Rightarrow> s
      | Some it \<Rightarrow>
          s\<lparr>m_thumbnails :=
              AList.update pageNumber
                (it\<lparr>isLoading := False, hasError := True, errorMessage := error,
                    lastAccessed := now\<rparr>)
                (m_thumbnails s)\<rparr>)"

text \<open>
  The loop of \<open>setThumbnailSize\<close> and \<open>setThumbnailQuality\<close> over all entries; the second
  component is \<open>m_currentMemory\<close>.
\<close>

fun clearPixmaps ::
  "(int \<times> ThumbnailItem) list \<Rightarrow> int \<Rightarrow> (int \<times> ThumbnailItem) list \<times> int"
where
  "clearPixmaps [] mem = ([], mem)"
| "clearPixmaps (item # rest) mem =
     (if \<not> isNull (pixmap (snd item))
      then (let (rest', mem') = clearPixmaps rest (mem - memorySize (snd item))
            in ((fst item,
                 (snd item)\<lparr>pixmap := NullPixmap, memorySize := 0, isLoading := False\<rparr>) # rest',
                mem'))
      else (let (rest', mem') = clearPixmaps rest mem in (item # rest', mem')))"

definition setThumbnailSize :: "ThumbnailModel \<Rightarrow> QSize \<Rightarrow> ThumbnailModel" where
  "setThumbnailSize s sz =
     (if m_thumbnailSize s \<noteq> sz
      then (let (items, mem) = clearPixmaps (m_thumbnails s) (m_currentMemory s)
            in s\<lparr>m_thumbnailSize := sz, m_thumbnails := items, m_currentMemory := mem\<rparr>)
      else s)"

definition setThumbnailQuality :: "ThumbnailModel \<Rightarrow> real \<Rightarrow> ThumbnailModel" where
  "setThumbnailQuality s quality =
     (if \<bar>m_thumbnailQuality s - quality\<bar> > 0.001
      then (let (items, mem) = clearPixmaps (m_thumbnails s) (m_currentMemory s)
            in s\<lparr>m_thumbnailQuality := quality, m_thumbnails := items, m_currentMemory := mem\<rparr>)
      else s)"

definition shouldPreload :: "ThumbnailModel \<Rightarrow> int \<Rightarrow> bool" where
  "shouldPreload s pageNumber =
     (if \<not> pageInDocument s pageNumber then False
      else
        (case map_of (m_thumbnails s) pageNumber of
           Some it \<Rightarrow> if \<not> isNull (pixmap it) then False else \<not> isLoading it \<and> \<not> hasError it
         | None \<Rightarrow> True))"

text \<open>
  \<open>data\<close> returns the value and the object, which the \<^verbatim>\<open>const_cast\<close>s of the source
  modify.
\<close>

definition data ::
  "ThumbnailModel \<Rightarrow> int \<Rightarrow> QModelIndex \<Rightarrow> ItemRole \<Rightarrow> QVariant \<times> ThumbnailModel"
where
  "data s now idx role =
     (if \<not> isValid idx \<or> m_document s = None then (Invalid, s)
      else
        (let pageNumber = indexRow idx in
         if \<not> pageInDocument s pageNumber then (Invalid, s)
         else
           (case role of
              PageNumberRole \<Rightarrow> (VInt pageNumber, s)
            | PixmapRole \<Rightarrow>
                (case map_of (m_thumbnails s) pageNumber of
                   Some it \<Rightarrow>
                     (let s1 = updateAccessFrequency
                                 (s\<lparr>m_thumbnails :=
                                      AList.update pageNumber (it\<lparr>lastAccessed := now\<rparr>)
                                        (m_thumbnails s)\<rparr>)
                                 pageNumber
                      in if \<not> isNull (pixmap it)
                         then (VPixmap (pixmap it), s1\<lparr>m_cacheHits := m_cacheHits s1 + 1\<rparr>)
                         else (Invalid,
                               requestThumbnail (s1\<lparr>m_cacheMisses := m_cacheMisses s1 + 1\<rparr>)
                                 now pageNumber))
                 | None \<Rightarrow>
                     (Invalid,
                      requestThumbnail (s\<lparr>m_cacheMisses := m_cacheMisses s + 1\<rparr>)
                        now pageNumber))
            | LoadingRole \<Rightarrow>
                (VBool (case map_of (m_thumbnails s) pageNumber of
                          Some it \<Rightarrow> isLoading it | None \<Rightarrow> False), s)
            | ErrorRole \<Rightarrow>
                (VBool (case map_of (m_thumbnails s) pageNumber of
                          Some it \<Rightarrow> hasError it | None \<Rightarrow> False), s)
            | ErrorMessageRole \<Rightarrow>
                (VString (case map_of (m_thumbnails s) pageNumber of
                            Some it \<Rightarrow> errorMessage it | None \<Rightarrow> []), s)
            | PageSizeRole \<Rightarrow>
                (let found = map_of (m_thumbnails s) pageNumber;
                     cached = (case found of
                                 Some it \<Rightarrow>
                                   if \<not> sizeIsEmpty (pageSize it) then Some (pageSize it)
                                   else None
                               | None \<Rightarrow> None)
                 in case cached of
                      Some sz \<Rightarrow> (VSize sz, s)
                    | None \<Rightarrow>
                        (case m_document s of
                           None \<Rightarrow> (Invalid, s)
                         | Some d \<Rightarrow>
                             (case docPage d pageNumber of
                                None \<Rightarrow> (Invalid, s)
                              | Some sz \<Rightarrow>
                                  (let item = (case found of
                                                 Some it \<Rightarrow> it
                                               | None \<Rightarrow> ThumbnailItem_default)
                                   in (VSize sz,
                                       s\<lparr>m_thumbnails :=
                                           AList.update pageNumber (item\<lparr>pageSize := sz\<rparr>)
                                             (m_thumbnails s)\<rparr>)))))
            | OtherRole r \<Rightarrow> (Invalid, s))))"

subsection \<open>Queries\<close>

definition hasCachedThumbnail :: "ThumbnailModel \<Rightarrow> int \<Rightarrow> bool" where
  "hasCachedThumbnail s pageNumber =
     (case map_of (m_thumbnails s) pageNumber of
        Some it \<Rightarrow> \<not> isNull (pixmap it) | None \<Rightarrow> False)"

definition isThumbnailLoading :: "ThumbnailModel \<Rightarrow> int \<Rightarrow> bool" where
  "isThumbnailLoading s pageNumber =
     (case map_of (m_thumbnails s) pageNumber of Some it \<Rightarrow> isLoading it | None \<Rightarrow> False)"

subsection \<open>Well-formed objects\<close>

text \<open>
  What the types of the source give: the keys of each \<^verbatim>\<open>QHash\<close> are unique, and an access
  count is an \<^verbatim>\<open>int\<close>. Page numbers in the store are not negative (entries are created
  only after the range check), and a time stamp is a clock reading, below
  \<^verbatim>\<open>LLONG_MAX\<close>.
\<close>

definition store_wf :: "ThumbnailModel \<Rightarrow> bool" where
  "store_wf s \<longleftrightarrow>
     distinct (map fst (m_thumbnails s)) \<and>
     (\<forall>e \<in> set (m_thumbnails s). 0 \<le> fst e \<and> lastAccessed (snd e) < LLONG_MAX) \<and>
     distinct (map fst (m_accessFrequency s)) \<and>
     (\<forall>e \<in> set (m_accessFrequency s). snd e \<le> INT_MAX)"

text \<open>The access count that the frequency scan reads for an entry.\<close>

definition scanFrequency :: "(int \<times> int) list \<Rightarrow> int \<times> ThumbnailItem \<Rightarrow> int" where
  "scanFrequency af x = (case map_of af (fst x) of None \<Rightarrow> 0 | Some f \<Rightarrow> f)"

text \<open>The state of an entry: every field but the access time.\<close>

definition entryState ::
  "ThumbnailItem \<Rightarrow> QPixmap \<times> bool \<times> bool \<times> string \<times> int \<times> QSize" where
  "entryState it =
     (pixmap it, isLoading it, hasError it, errorMessage it, memorySize it, pageSize it)"

subsection \<open>Sequences of operations\<close>

text \<open>
  The operations a caller, a timer or the generator can perform on the object, with the
  clock reading where the operation takes one. \<open>modelIndex row\<close> is the index that
  \<^verbatim>\<open>index(row)\<close> of a list model returns.
\<close>

definition modelIndex :: "int \<Rightarrow> QModelIndex" where
  "modelIndex row = \<lparr>indexRow = row, indexColumn = 0, indexHasModel = True\<rparr>"

datatype Operation =
    SetDocument "Document option"
  | SetThumbnailSize QSize
  | SetThumbnailQuality real
  | SetCacheSize int
  | SetMemoryLimit int
  | ClearCache
  | RequestThumbnail int int
  | RefreshThumbnail int int
  | Data int QModelIndex ItemRole
  | OnThumbnailGenerated int int QPixmap
  | OnThumbnailError int int string
  | CleanupCache int
  | SetViewportRange int int int
  | OnPriorityUpdateTimer
  | UpdateMemoryUsage

fun perform :: "ThumbnailModel \<Rightarrow> Operation \<Rightarrow> ThumbnailModel option" where
  "perform s (SetDocument document) = Some (setDocument s document)"
| "perform s (SetThumbnailSize sz) = Some (setThumbnailSize s sz)"
| "perform s (SetThumbnailQuality quality) = Some (setThumbnailQuality s quality)"
| "perform s (SetCacheSize maxItems) = setCacheSize s maxItems"
| "perform s (SetMemoryLimit maxMemory) = setMemoryLimit s maxMemory"
| "perform s ClearCache = Some (clearCache s)"
| "perform s (RequestThumbnail now pageNumber) = Some (requestThumbnail s now pageNumber)"
| "perform s (RefreshThumbnail now pageNumber) = Some (refreshThumbnail s now pageNumber)"
| "perform s (Data now idx role) = Some (snd (data s now idx role))"
| "perform s (OnThumbnailGenerated now pageNumber pm) = onThumbnailGenerated s now pageNumber pm"
| "perform s (OnThumbnailError now pageNumber err) = Some (onThumbnailError s now pageNumber err)"
| "perform s (CleanupCache now) = cleanupCache s now"
| "perform s (SetViewportRange start end margin) = Some (setViewportRange s start end margin)"
| "perform s OnPriorityUpdateTimer = Some (onPriorityUpdateTimer s)"
| "perform s UpdateMemoryUsage = Some (updateMemoryUsage s)"

fun run :: "ThumbnailModel \<Rightarrow> Operation list \<Rightarrow> ThumbnailModel option" where
  "run s [] = Some s"
| "run s (op # ops) = (case perform s op of None \<Rightarrow> None | Some s' \<Rightarrow> run s' ops)"

subsection \<open>The invariant of the cache\<close>

text \<open>The bytes the entries of the store account for.\<close>

definition storedBytes :: "(int \<times> ThumbnailItem) list \<Rightarrow> int" where
  "storedBytes xs = (\<Sum>e\<leftarrow>xs. memorySize (snd e))"

text \<open>
  The tracked total is what \<open>updateMemoryUsage\<close> would recompute, and an entry without
  image accounts for no bytes. In \<open>cache_inv a\<close> the flag \<open>a\<close> says whether the accounting
  is part of the invariant.
\<close>

definition accounted :: "ThumbnailModel \<Rightarrow> bool" where
  "accounted s \<longleftrightarrow>
     m_currentMemory (updateMemoryUsage s) = m_currentMemory s \<and>
     (\<forall>e \<in> set (m_thumbnails s). isNull (pixmap (snd e)) \<longrightarrow> memorySize (snd e) = 0)"

definition cache_inv :: "bool \<Rightarrow> ThumbnailModel \<Rightarrow> bool" where
  "cache_inv a s \<longleftrightarrow> store_wf s \<and> 0 \<le> m_maxCacheSize s \<and> (a \<longrightarrow> accounted s)"

text \<open>
  The clock reading of an operation, and the one operation that breaks the accounting: a
  completion for a page whose entry already holds an image.
\<close>

fun opTime :: "Operation \<Rightarrow> int" where
  "opTime (RequestThumbnail now pageNumber) = now"
| "opTime (RefreshThumbnail now pageNumber) = now"
| "opTime (Data now idx role) = now"
| "opTime (OnThumbnailGenerated now pageNumber pm) = now"
| "opTime (OnThumbnailError now pageNumber err) = now"
| "opTime (CleanupCache now) = now"
| "opTime _ = 0"

fun redelivery :: "ThumbnailModel \<Rightarrow> Operation \<Rightarrow> bool" where
  "redelivery s (OnThumbnailGenerated now pageNumber pm) = hasCachedThumbnail s pageNumber"
| "redelivery s _ = False"

subsection \<open>Example objects\<close>

text \<open>
  A document of 100 A4 pages, and a model with that document: thumbnails of 120 x 160,
  at most 100 entries and 256 MB.
\<close>

definition exampleDocument :: Document where
  "exampleDocument = \<lparr>numPages = 100, docPage = (\<lambda>n. Some (595, 842))\<rparr>"

definition emptyModel :: ThumbnailModel where
  "emptyModel =
     setDocument (newThumbnailModel (120, 160) 1 100 (256 * 1024 * 1024) 5)
       (Some exampleDocument)"

text \<open>The object after a sequence of operations on \<open>emptyModel\<close>.\<close>

definition after :: "Operation list \<Rightarrow> ThumbnailModel" where
  "after ops = (case run emptyModel ops of Some s \<Rightarrow> s | None \<Rightarrow> emptyModel)"

text \<open>Page 3 has been requested at time 1000 and is loading; then its image arrives.\<close>

definition loadingModel :: ThumbnailModel where
  "loadingModel = requestThumbnail emptyModel 1000 3"

definition readyModel :: ThumbnailModel where
  "readyModel = after [RequestThumbnail 1000 3, OnThumbnailGenerated 2000 3 (Pixmap 120 160)]"

text \<open>
  Page 0 is requested twice (by a request and by a refresh), so the generator is called
  twice and reports twice.
\<close>

definition doubleDelivery :: "Operation list" where
  "doubleDelivery =
     [RequestThumbnail 1000 0, RefreshThumbnail 1100 0,
      OnThumbnailGenerated 1200 0 (Pixmap 120 160),
      OnThumbnailGenerated 1300 0 (Pixmap 120 160)]"

definition deliveredTwice :: ThumbnailModel where
  "deliveredTwice = after doubleDelivery"

text \<open>A ceiling of one entry, two pages requested, the first one generated.\<close>

definition crowdedModel :: ThumbnailModel where
  "crowdedModel = after
     [SetCacheSize 1, RequestThumbnail 1000 0, RequestThumbnail 2000 1,
      OnThumbnailGenerated 3000 0 (Pixmap 120 160)]"

text \<open>
  The smallest memory limit (1 MB) and images of 600 x 500 (1.2 MB): one image alone,
  and one image with a second page loading.
\<close>

definition oversizedModel :: ThumbnailModel where
  "oversizedModel = after
     [SetMemoryLimit 0, RequestThumbnail 1000 0, OnThumbnailGenerated 2000 0 (Pixmap 600 500)]"

definition tightModel :: ThumbnailModel where
  "tightModel = after
     [SetMemoryLimit 0, RequestThumbnail 1000 0, OnThumbnailGenerated 2000 0 (Pixmap 600 500),
      RequestThumbnail 2500 1]"



text \<open>
  Three pages read through \<open>data\<close>: three misses and one hit (page 0, the oldest entry,
  is the only one read again). \<open>hotModel\<close> is the same store with a hit counter of 8.
\<close>

definition coldModel :: ThumbnailModel where
  "coldModel = after
     [Data 1000 (modelIndex 0) PixmapRole, OnThumbnailGenerated 1100 0 (Pixmap 120 160),
      Data 1150 (modelIndex 0) PixmapRole,
      Data 1200 (modelIndex 1) PixmapRole, OnThumbnailGenerated 1300 1 (Pixmap 120 160),
      Data 1400 (modelIndex 2) PixmapRole, OnThumbnailGenerated 1500 2 (Pixmap 120 160)]"

definition hotModel :: ThumbnailModel where
  "hotModel = coldModel\<lparr>m_cacheHits := 8\<rparr>"

text \<open>A ceiling of one entry; pages 0 and 1 have been read twice each, page 2 once.\<close>

definition countedModel :: ThumbnailModel where
  "countedModel = after
     [SetCacheSize 1,
      Data 1000 (modelIndex 0) PixmapRole, Data 1100 (modelIndex 0) PixmapRole,
      Data 1200 (modelIndex 1) PixmapRole, Data 1300 (modelIndex 1) PixmapRole,
      Data 1400 (modelIndex 2) PixmapRole]"


section \<open>Properties\<close>

subsection \<open>32-bit results\<close>

text \<open>
  A result that is in range is not changed by the wrap-around; every result is in range;
  and counting up from below \<^verbatim>\<open>INT_MAX\<close> does not go down.
\<close>

lemma int32_id: "- INT_MAX - 1 \<le> x \<Longrightarrow> x \<le> INT_MAX \<Longrightarrow> int32 x = x"
  by (simp add: int32_def INT_MAX_def)

lemma int32_le: "int32 x \<le> INT_MAX"
proof -
  have "(x + 2147483648) mod 4294967296 < 4294967296" by simp
  then show ?thesis by (simp add: int32_def INT_MAX_def)
qed



subsection \<open>Loops\<close>

text \<open>
  A loop returns, with its invariant and with its condition false, when each round keeps
  the invariant and makes a measure smaller.
\<close>

lemma whileLoop_measure:
  fixes m :: "'s \<Rightarrow> nat"
  assumes "I s"
    and step: "\<And>t. I t \<Longrightarrow> c t \<Longrightarrow> I (body t) \<and> m (body t) < m t"
  shows "\<exists>s'. whileLoop c body s = Some s' \<and> I s' \<and> \<not> c s'"
  using assms(1)
proof (induction "m s" arbitrary: s rule: less_induct)
  case less
  show ?case
  proof (cases "c s")
    case True
    with less.prems step have "I (body s)" "m (body s) < m s" by auto
    from less.hyps [OF this(2) this(1)] obtain s' where
      "whileLoop c body (body s) = Some s'" "I s'" "\<not> c s'" by blast
    with True show ?thesis by (subst whileLoop.simps) simp
  next
    case False
    with less.prems show ?thesis by (subst whileLoop.simps) simp
  qed
qed


subsection \<open>The example objects\<close>

lemmas example_defs =
  exampleDocument_def emptyModel_def loadingModel_def newThumbnailModel_def setDocument_def
  clearCache_def requestThumbnail_def beginLoad_def pageInDocument_def
  shouldGenerateThumbnail_def isInViewport_def calculatePriority_def
  ThumbnailItem_default_def

lemmas run_defs =
  after_def example_defs onThumbnailGenerated_def whileLoop.simps calculatePixmapMemory_def
  data_def isValid_def modelIndex_def updateAccessFrequency_def frequencyOf_def int32_def
  Let_def

lemmas loop_defs =
  setCacheSize_def setMemoryLimit_def cleanupCache_def adaptCacheSize_def
  evictByAdaptivePolicy_def calculateCacheEfficiency_def evictLeastRecentlyUsed_def
  evictLeastFrequentlyUsed_def INT_MAX_def LLONG_MAX_def

lemma readyModel_fields:
  "map_of (m_thumbnails readyModel) 3 =
     Some \<lparr>pixmap = Pixmap 120 160, isLoading = False, hasError = False,
          errorMessage = [], lastAccessed = 2000, memorySize = 76800,
          pageSize = (- 1, - 1)\<rparr>"
  "generatorCalls readyModel = [(3, (120, 160), 1, 5)]"
  by (simp_all add: readyModel_def run_defs)

lemma loadingModel_fields:
  "map_of (m_thumbnails loadingModel) 3 =
     Some \<lparr>pixmap = NullPixmap, isLoading = True, hasError = False,
          errorMessage = [], lastAccessed = 1000, memorySize = 0,
          pageSize = (- 1, - 1)\<rparr>"
  "generatorCalls loadingModel = [(3, (120, 160), 1, 5)]"
  by (simp_all add: example_defs)



lemma coldModel_fields:
  "m_thumbnails coldModel =
     [(0, \<lparr>pixmap = Pixmap 120 160, isLoading = False, hasError = False,
          errorMessage = [], lastAccessed = 1150, memorySize = 76800,
          pageSize = (- 1, - 1)\<rparr>),
      (1, \<lparr>pixmap = Pixmap 120 160, isLoading = False, hasError = False,
          errorMessage = [], lastAccessed = 1300, memorySize = 76800,
          pageSize = (- 1, - 1)\<rparr>),
      (2, \<lparr>pixmap = Pixmap 120 160, isLoading = False, hasError = False,
          errorMessage = [], lastAccessed = 1500, memorySize = 76800,
          pageSize = (- 1, - 1)\<rparr>)]"
  "m_accessFrequency coldModel = [(0, 1)]"
  "m_cacheHits coldModel = 1" "m_cacheMisses coldModel = 3"
  "m_adaptiveCaching coldModel" "m_currentMemory coldModel = 230400"
  by (simp_all add: coldModel_def run_defs)

lemma coldModel_wf: "store_wf coldModel"
  by (simp add: store_wf_def coldModel_fields LLONG_MAX_def INT_MAX_def)

lemma hotModel_wf: "store_wf hotModel"
  using coldModel_wf by (simp add: store_wf_def hotModel_def)

lemma tightModel_fields:
  "m_thumbnails tightModel =
     [(0, \<lparr>pixmap = Pixmap 600 500, isLoading = False, hasError = False,
          errorMessage = [], lastAccessed = 2000, memorySize = 1200000,
          pageSize = (- 1, - 1)\<rparr>),
      (1, \<lparr>pixmap = NullPixmap, isLoading = True, hasError = False,
          errorMessage = [], lastAccessed = 2500, memorySize = 0,
          pageSize = (- 1, - 1)\<rparr>)]"
  "m_accessFrequency tightModel = []"
  "m_maxCacheSize tightModel = 100"
  "m_maxMemory tightModel = 1048576"
  "m_currentMemory tightModel = 1200000"
  by (simp_all add: tightModel_def run_defs loop_defs)

lemma countedModel_fields:
  "m_accessFrequency countedModel = [(0, 1), (1, 1)]"
  "m_maxCacheSize countedModel = 1"
  "m_accessFrequency (updateAccessFrequency countedModel 2) = []"
  by (simp_all add: countedModel_def run_defs loop_defs)


subsection \<open>The eviction scans\<close>

lemma lruScan_min:
  "lruScan xs (e0, lastAccessed (snd e0)) = (e, t) \<Longrightarrow>
     t = lastAccessed (snd e) \<and> e \<in> insert e0 (set xs) \<and>
     (\<forall>x \<in> insert e0 (set xs). lastAccessed (snd e) \<le> lastAccessed (snd x))"
proof (induction xs arbitrary: e0)
  case Nil
  then show ?case by auto
next
  case (Cons x xs)
  show ?case
  proof (cases "lastAccessed (snd x) < lastAccessed (snd e0)")
    case True
    with Cons.prems have "lruScan xs (x, lastAccessed (snd x)) = (e, t)" by simp
    from Cons.IH [OF this] True show ?thesis by auto
  next
    case False
    with Cons.prems have "lruScan xs (e0, lastAccessed (snd e0)) = (e, t)" by simp
    from Cons.IH [OF this] False show ?thesis by auto
  qed
qed

lemma set_delete_distinct:
  "distinct (map fst xs) \<Longrightarrow> e \<in> set xs \<Longrightarrow> set (AList.delete (fst e) xs) = set xs - {e}"
  by (induction xs) (auto simp: rev_image_eqI)

lemma length_delete_distinct:
  "distinct (map fst xs) \<Longrightarrow> e \<in> set xs \<Longrightarrow> Suc (length (AList.delete (fst e) xs)) = length xs"
  by (induction xs) (auto simp: rev_image_eqI)

lemma evictLeastRecentlyUsed_removes:
  assumes "m_thumbnails s \<noteq> []"
  shows "\<exists>e \<in> set (m_thumbnails s).
           (\<forall>x \<in> set (m_thumbnails s). lastAccessed (snd e) \<le> lastAccessed (snd x)) \<and>
           evictLeastRecentlyUsed s =
             s\<lparr>m_currentMemory := m_currentMemory s - memorySize (snd e),
               m_thumbnails := AList.delete (fst e) (m_thumbnails s)\<rparr>"
proof -
  from assms obtain first rest where xs: "m_thumbnails s = first # rest"
    by (cases "m_thumbnails s") auto
  obtain e t where sc: "lruScan (m_thumbnails s) (first, lastAccessed (snd first)) = (e, t)"
    by (cases "lruScan (m_thumbnails s) (first, lastAccessed (snd first))") auto
  from lruScan_min [OF sc] xs have
    "e \<in> set (m_thumbnails s)"
    "\<forall>x \<in> set (m_thumbnails s). lastAccessed (snd e) \<le> lastAccessed (snd x)"
    by auto
  moreover from xs sc have "evictLeastRecentlyUsed s =
      s\<lparr>m_currentMemory := m_currentMemory s - memorySize (snd e),
        m_thumbnails := AList.delete (fst e) (m_thumbnails s)\<rparr>"
    by (simp add: evictLeastRecentlyUsed_def)
  ultimately show ?thesis by blast
qed

lemma lfuScan_min:
  "lfuScan xs af (p0, f0, t0) = (p, f, t) \<Longrightarrow>
     ((p, f, t) = (p0, f0, t0) \<and>
      (\<forall>x \<in> set xs. \<not> (scanFrequency af x < f0 \<or>
                         (scanFrequency af x = f0 \<and> lastAccessed (snd x) < t0))))
     \<or> (\<exists>x \<in> set xs. p = fst x \<and> f = scanFrequency af x \<and> t = lastAccessed (snd x) \<and>
           (f < f0 \<or> (f = f0 \<and> t < t0)) \<and>
           (\<forall>y \<in> set xs. f < scanFrequency af y \<or>
                          (f = scanFrequency af y \<and> t \<le> lastAccessed (snd y))))"
proof (induction xs arbitrary: p0 f0 t0)
  case Nil
  then show ?case by simp
next
  case (Cons x xs)
  let ?fx = "scanFrequency af x" and ?tx = "lastAccessed (snd x)"
  show ?case
  proof (cases "?fx < f0 \<or> (?fx = f0 \<and> ?tx < t0)")
    case True
    with Cons.prems have "lfuScan xs af (fst x, ?fx, ?tx) = (p, f, t)"
      by (auto simp: scanFrequency_def Let_def split: if_splits)
    from Cons.IH [OF this] show ?thesis
    proof
      assume a: "(p, f, t) = (fst x, ?fx, ?tx) \<and>
        (\<forall>y \<in> set xs. \<not> (scanFrequency af y < ?fx \<or>
                         (scanFrequency af y = ?fx \<and> lastAccessed (snd y) < ?tx)))"
      then have "\<forall>y \<in> set (x # xs). f < scanFrequency af y \<or>
                          (f = scanFrequency af y \<and> t \<le> lastAccessed (snd y))"
        by auto
      with a True have "x \<in> set (x # xs) \<and> p = fst x \<and> f = ?fx \<and> t = ?tx \<and>
           (f < f0 \<or> (f = f0 \<and> t < t0)) \<and>
           (\<forall>y \<in> set (x # xs). f < scanFrequency af y \<or>
                          (f = scanFrequency af y \<and> t \<le> lastAccessed (snd y)))"
        by simp
      then show ?thesis by blast
    next
      assume "\<exists>z \<in> set xs. p = fst z \<and> f = scanFrequency af z \<and> t = lastAccessed (snd z) \<and>
           (f < ?fx \<or> (f = ?fx \<and> t < ?tx)) \<and>
           (\<forall>y \<in> set xs. f < scanFrequency af y \<or>
                          (f = scanFrequency af y \<and> t \<le> lastAccessed (snd y)))"
      then obtain z where z: "z \<in> set xs" "p = fst z" "f = scanFrequency af z"
          "t = lastAccessed (snd z)" "f < ?fx \<or> (f = ?fx \<and> t < ?tx)"
          "\<forall>y \<in> set xs. f < scanFrequency af y \<or>
                          (f = scanFrequency af y \<and> t \<le> lastAccessed (snd y))"
        by blast
      from z(5) True have b: "f < f0 \<or> (f = f0 \<and> t < t0)" by linarith
      from z(5) z(6) have "\<forall>y \<in> set (x # xs). f < scanFrequency af y \<or>
                          (f = scanFrequency af y \<and> t \<le> lastAccessed (snd y))"
        by auto
      with z b have "z \<in> set (x # xs) \<and> p = fst z \<and> f = scanFrequency af z \<and>
           t = lastAccessed (snd z) \<and> (f < f0 \<or> (f = f0 \<and> t < t0)) \<and>
           (\<forall>y \<in> set (x # xs). f < scanFrequency af y \<or>
                          (f = scanFrequency af y \<and> t \<le> lastAccessed (snd y)))"
        by simp
      then show ?thesis by blast
    qed
  next
    case False
    with Cons.prems have "lfuScan xs af (p0, f0, t0) = (p, f, t)"
      by (auto simp: scanFrequency_def Let_def split: if_splits)
    from Cons.IH [OF this] show ?thesis
    proof
      assume "(p, f, t) = (p0, f0, t0) \<and>
        (\<forall>y \<in> set xs. \<not> (scanFrequency af y < f0 \<or>
                         (scanFrequency af y = f0 \<and> lastAccessed (snd y) < t0)))"
      with False show ?thesis by simp
    next
      assume "\<exists>z \<in> set xs. p = fst z \<and> f = scanFrequency af z \<and> t = lastAccessed (snd z) \<and>
           (f < f0 \<or> (f = f0 \<and> t < t0)) \<and>
           (\<forall>y \<in> set xs. f < scanFrequency af y \<or>
                          (f = scanFrequency af y \<and> t \<le> lastAccessed (snd y)))"
      then obtain z where z: "z \<in> set xs" "p = fst z" "f = scanFrequency af z"
          "t = lastAccessed (snd z)" "f < f0 \<or> (f = f0 \<and> t < t0)"
          "\<forall>y \<in> set xs. f < scanFrequency af y \<or>
                          (f = scanFrequency af y \<and> t \<le> lastAccessed (snd y))"
        by blast
      from z(5) False have "f < ?fx \<or> (f = ?fx \<and> t \<le> ?tx)" by linarith
      with z(6) have "\<forall>y \<in> set (x # xs). f < scanFrequency af y \<or>
                          (f = scanFrequency af y \<and> t \<le> lastAccessed (snd y))"
        by simp
      with z have "z \<in> set (x # xs) \<and> p = fst z \<and> f = scanFrequency af z \<and>
           t = lastAccessed (snd z) \<and> (f < f0 \<or> (f = f0 \<and> t < t0)) \<and>
           (\<forall>y \<in> set (x # xs). f < scanFrequency af y \<or>
                          (f = scanFrequency af y \<and> t \<le> lastAccessed (snd y)))"
        by simp
      then show ?thesis by blast
    qed
  qed
qed


lemma scanFrequency_frequencyOf:
  "scanFrequency (m_accessFrequency s) x = frequencyOf s (fst x)"
  by (simp add: scanFrequency_def frequencyOf_def)

lemma frequencyOf_le_INT_MAX:
  "store_wf s \<Longrightarrow> frequencyOf s k \<le> INT_MAX"
proof (cases "map_of (m_accessFrequency s) k")
  case None
  then show ?thesis by (simp add: frequencyOf_def INT_MAX_def)
next
  case (Some f)
  assume "store_wf s"
  moreover from Some have "(k, f) \<in> set (m_accessFrequency s)" by (rule map_of_SomeD)
  ultimately have "f \<le> INT_MAX" by (auto simp: store_wf_def)
  with Some show ?thesis by (simp add: frequencyOf_def)
qed

lemma evictLeastFrequentlyUsed_removes:
  assumes wf: "store_wf s" and ne: "m_thumbnails s \<noteq> []"
  shows "\<exists>e \<in> set (m_thumbnails s).
           (\<forall>x \<in> set (m_thumbnails s).
               frequencyOf s (fst e) < frequencyOf s (fst x) \<or>
               (frequencyOf s (fst e) = frequencyOf s (fst x) \<and>
                lastAccessed (snd e) \<le> lastAccessed (snd x))) \<and>
           evictLeastFrequentlyUsed s =
             s\<lparr>m_currentMemory := m_currentMemory s - memorySize (snd e),
               m_thumbnails := AList.delete (fst e) (m_thumbnails s),
               m_accessFrequency := AList.delete (fst e) (m_accessFrequency s)\<rparr>"
proof -
  obtain p f t where sc:
    "lfuScan (m_thumbnails s) (m_accessFrequency s) (- 1, INT_MAX, LLONG_MAX) = (p, f, t)"
    by (cases "lfuScan (m_thumbnails s) (m_accessFrequency s) (- 1, INT_MAX, LLONG_MAX)") auto
  from ne obtain first where first: "first \<in> set (m_thumbnails s)"
    by (cases "m_thumbnails s") auto
  with wf have "lastAccessed (snd first) < LLONG_MAX" by (auto simp: store_wf_def)
  moreover from wf have "frequencyOf s (fst first) \<le> INT_MAX" by (rule frequencyOf_le_INT_MAX)
  ultimately have better:
    "scanFrequency (m_accessFrequency s) first < INT_MAX \<or>
     (scanFrequency (m_accessFrequency s) first = INT_MAX \<and>
      lastAccessed (snd first) < LLONG_MAX)"
    by (auto simp: scanFrequency_frequencyOf)
  from lfuScan_min [OF sc] better first obtain e where e:
    "e \<in> set (m_thumbnails s)" "p = fst e"
    "\<forall>y \<in> set (m_thumbnails s).
        scanFrequency (m_accessFrequency s) e < scanFrequency (m_accessFrequency s) y \<or>
        (scanFrequency (m_accessFrequency s) e = scanFrequency (m_accessFrequency s) y \<and>
         lastAccessed (snd e) \<le> lastAccessed (snd y))"
    by blast
  from wf e(1) have key: "0 \<le> fst e" by (auto simp: store_wf_def)
  from wf e(1) have found: "map_of (m_thumbnails s) (fst e) = Some (snd e)"
    by (simp add: store_wf_def)
  from sc e(2) key found ne have
    "evictLeastFrequentlyUsed s =
       s\<lparr>m_currentMemory := m_currentMemory s - memorySize (snd e),
         m_thumbnails := AList.delete (fst e) (m_thumbnails s),
         m_accessFrequency := AList.delete (fst e) (m_accessFrequency s)\<rparr>"
    by (simp add: evictLeastFrequentlyUsed_def)
  with e(1) e(3) show ?thesis
    unfolding scanFrequency_frequencyOf by blast
qed

lemma set_delete_subset: "set (AList.delete k xs) \<subseteq> set xs"
  by (induction xs) auto

lemma store_wf_delete:
  assumes "store_wf s"
  shows "store_wf (s\<lparr>m_currentMemory := m, m_thumbnails := AList.delete k (m_thumbnails s)\<rparr>)"
    and "store_wf (s\<lparr>m_currentMemory := m, m_thumbnails := AList.delete k (m_thumbnails s),
                      m_accessFrequency := AList.delete k' (m_accessFrequency s)\<rparr>)"
  using assms
  by (auto simp: store_wf_def distinct_delete dest: subsetD [OF set_delete_subset])

text \<open>One eviction step on a well-formed, non-empty store.\<close>

lemma evictByAdaptivePolicy_step:
  assumes wf: "store_wf s" and ne: "m_thumbnails s \<noteq> []"
  shows "\<exists>e \<in> set (m_thumbnails s).
           m_thumbnails (evictByAdaptivePolicy s) = AList.delete (fst e) (m_thumbnails s) \<and>
           m_currentMemory (evictByAdaptivePolicy s) = m_currentMemory s - memorySize (snd e) \<and>
           store_wf (evictByAdaptivePolicy s) \<and>
           m_maxMemory (evictByAdaptivePolicy s) = m_maxMemory s \<and>
           m_maxCacheSize (evictByAdaptivePolicy s) = m_maxCacheSize s"
proof (cases "\<not> m_adaptiveCaching s \<or> calculateCacheEfficiency s > 0.7")
  case True
  then have eq: "evictByAdaptivePolicy s = evictLeastRecentlyUsed s"
    by (auto simp: evictByAdaptivePolicy_def)
  from evictLeastRecentlyUsed_removes [OF ne] obtain e where
    "e \<in> set (m_thumbnails s)"
    "evictLeastRecentlyUsed s =
       s\<lparr>m_currentMemory := m_currentMemory s - memorySize (snd e),
         m_thumbnails := AList.delete (fst e) (m_thumbnails s)\<rparr>"
    by blast
  with eq store_wf_delete(1) [OF wf] show ?thesis by auto
next
  case False
  then have eq: "evictByAdaptivePolicy s = evictLeastFrequentlyUsed s"
    by (auto simp: evictByAdaptivePolicy_def)
  from evictLeastFrequentlyUsed_removes [OF wf ne] obtain e where
    "e \<in> set (m_thumbnails s)"
    "evictLeastFrequentlyUsed s =
       s\<lparr>m_currentMemory := m_currentMemory s - memorySize (snd e),
         m_thumbnails := AList.delete (fst e) (m_thumbnails s),
         m_accessFrequency := AList.delete (fst e) (m_accessFrequency s)\<rparr>"
    by blast
  with eq store_wf_delete(2) [OF wf] show ?thesis by auto
qed


lemma length_delete_less:
  "e \<in> set xs \<Longrightarrow> length (AList.delete (fst e) xs) < length xs"
  by (induction xs) (auto simp: less_Suc_eq_le AList.length_delete_le)

lemma set_update_subset: "set (AList.update k v xs) \<subseteq> insert (k, v) (set xs)"
  by (induction xs) auto

lemma length_update_present:
  "map_of xs k = Some v' \<Longrightarrow> length (AList.update k v xs) = length xs"
  by (induction xs) (auto split: if_splits)

lemma store_wf_update:
  assumes "store_wf s" and "0 \<le> k" and "lastAccessed item < LLONG_MAX"
  shows "store_wf (s\<lparr>m_thumbnails := AList.update k item (m_thumbnails s), m_currentMemory := m\<rparr>)"
  using assms
  by (auto simp: store_wf_def distinct_update dest!: subsetD [OF set_update_subset])

lemma adaptCacheSize_fields:
  "m_thumbnails (adaptCacheSize s now) = m_thumbnails s"
  "m_accessFrequency (adaptCacheSize s now) = m_accessFrequency s"
  "m_currentMemory (adaptCacheSize s now) = m_currentMemory s"
  "m_maxMemory (adaptCacheSize s now) = m_maxMemory s"
  "0 \<le> m_maxCacheSize s \<Longrightarrow> m_maxCacheSize s \<le> INT_MAX - 10 \<Longrightarrow>
     0 \<le> m_maxCacheSize (adaptCacheSize s now)"
  by (auto simp: adaptCacheSize_def Let_def max_def int32_id INT_MAX_def)

lemma onThumbnailGenerated_returns:
  assumes wf: "store_wf s" and now: "now < LLONG_MAX"
    and found: "map_of (m_thumbnails s) pageNumber = Some it"
  shows "\<exists>s'. onThumbnailGenerated s now pageNumber pm = Some s' \<and>
           (m_currentMemory s' \<le> m_maxMemory s' \<or> length (m_thumbnails s') \<le> 1) \<and>
           m_thumbnails s' \<noteq> [] \<and>
           length (m_thumbnails s') \<le> length (m_thumbnails s)"
proof -
  define item where "item = it\<lparr>pixmap := pm, isLoading := False, hasError := False,
      errorMessage := [], lastAccessed := now, memorySize := calculatePixmapMemory pm\<rparr>"
  define s1 where "s1 = s\<lparr>m_thumbnails := AList.update pageNumber item (m_thumbnails s),
      m_currentMemory := m_currentMemory s + memorySize item\<rparr>"
  let ?c = "\<lambda>t. m_currentMemory t > m_maxMemory t \<and> length (m_thumbnails t) > 1"
  let ?I = "\<lambda>t. store_wf t \<and> m_thumbnails t \<noteq> [] \<and>
                length (m_thumbnails t) \<le> length (m_thumbnails s)"
  from found have "(pageNumber, it) \<in> set (m_thumbnails s)" by (rule map_of_SomeD)
  with wf have key: "0 \<le> pageNumber" by (auto simp: store_wf_def)
  have "store_wf s1"
    unfolding s1_def using wf key now by (intro store_wf_update) (simp_all add: item_def)
  moreover have "length (m_thumbnails s1) = length (m_thumbnails s)"
    using found by (simp add: s1_def length_update_present)
  moreover have "m_thumbnails s1 \<noteq> []" by (simp add: s1_def)
  ultimately have I: "?I s1" by simp
  have step: "?I (evictByAdaptivePolicy t) \<and>
        length (m_thumbnails (evictByAdaptivePolicy t)) < length (m_thumbnails t)"
    if "?I t" and "?c t" for t
  proof -
    from that have wft: "store_wf t" and net: "m_thumbnails t \<noteq> []" by auto
    from evictByAdaptivePolicy_step [OF wft net] obtain e where e:
      "e \<in> set (m_thumbnails t)"
      "m_thumbnails (evictByAdaptivePolicy t) = AList.delete (fst e) (m_thumbnails t)"
      "store_wf (evictByAdaptivePolicy t)"
      by blast
    from wft have "distinct (map fst (m_thumbnails t))" by (simp add: store_wf_def)
    from length_delete_distinct [OF this e(1)] e(2)
    have len: "Suc (length (m_thumbnails (evictByAdaptivePolicy t))) = length (m_thumbnails t)"
      by simp
    with that e(3) show ?thesis by auto
  qed
  from whileLoop_measure [of ?I s1 ?c evictByAdaptivePolicy "\<lambda>t. length (m_thumbnails t)",
      OF I step]
  obtain s' where "whileLoop ?c evictByAdaptivePolicy s1 = Some s'" "?I s'" "\<not> ?c s'"
    by blast
  moreover have "onThumbnailGenerated s now pageNumber pm = whileLoop ?c evictByAdaptivePolicy s1"
    using found by (simp add: onThumbnailGenerated_def s1_def item_def Let_def)
  ultimately show ?thesis by (auto simp: not_less)
qed

lemma cleanupCache_returns:
  assumes wf: "store_wf s" and cap: "0 \<le> m_maxCacheSize s"
    and top: "m_maxCacheSize s \<le> INT_MAX - 10"
  shows "\<exists>s'. cleanupCache s now = Some s' \<and>
           int (length (m_thumbnails s')) \<le> m_maxCacheSize s' \<and>
           (m_currentMemory s' \<le> m_maxMemory s' \<or> m_thumbnails s' = [])"
proof (cases "m_thumbnails s = []")
  case True
  with cap show ?thesis by (simp add: cleanupCache_def)
next
  case False
  let ?c1 = "\<lambda>t. int (length (m_thumbnails t)) > m_maxCacheSize t"
  let ?c2 = "\<lambda>t. m_currentMemory t > m_maxMemory t \<and> m_thumbnails t \<noteq> []"
  let ?I1 = "\<lambda>t. store_wf t \<and> 0 \<le> m_maxCacheSize t"
  let ?I2 = "\<lambda>t. store_wf t \<and> int (length (m_thumbnails t)) \<le> m_maxCacheSize t"
  have shrink: "store_wf (evictByAdaptivePolicy t) \<and>
        m_maxCacheSize (evictByAdaptivePolicy t) = m_maxCacheSize t \<and>
        length (m_thumbnails (evictByAdaptivePolicy t)) < length (m_thumbnails t)"
    if "store_wf t" and "m_thumbnails t \<noteq> []" for t
  proof -
    from evictByAdaptivePolicy_step [OF that] obtain e where e:
      "e \<in> set (m_thumbnails t)"
      "m_thumbnails (evictByAdaptivePolicy t) = AList.delete (fst e) (m_thumbnails t)"
      "store_wf (evictByAdaptivePolicy t)"
      "m_maxCacheSize (evictByAdaptivePolicy t) = m_maxCacheSize t"
      by blast
    from length_delete_less [OF e(1)] e show ?thesis by simp
  qed
  have "store_wf (adaptCacheSize s now)"
    using wf by (simp add: store_wf_def adaptCacheSize_fields)
  with cap top have I1: "?I1 (adaptCacheSize s now)" by (simp add: adaptCacheSize_fields)
  have step1: "?I1 (evictByAdaptivePolicy t) \<and>
        length (m_thumbnails (evictByAdaptivePolicy t)) < length (m_thumbnails t)"
    if "?I1 t" and "?c1 t" for t
  proof -
    from that have "store_wf t" "m_thumbnails t \<noteq> []" by auto
    from shrink [OF this] that show ?thesis by simp
  qed
  from whileLoop_measure [of ?I1 "adaptCacheSize s now" ?c1 evictByAdaptivePolicy
      "\<lambda>t. length (m_thumbnails t)", OF I1 step1]
  obtain s1 where s1: "whileLoop ?c1 evictByAdaptivePolicy (adaptCacheSize s now) = Some s1"
    "?I1 s1" "\<not> ?c1 s1"
    by blast
  then have I2: "?I2 s1" by simp
  have step2: "?I2 (evictByAdaptivePolicy t) \<and>
        length (m_thumbnails (evictByAdaptivePolicy t)) < length (m_thumbnails t)"
    if "?I2 t" and "?c2 t" for t
  proof -
    from that have "store_wf t" "m_thumbnails t \<noteq> []" by auto
    from shrink [OF this] that show ?thesis by simp
  qed
  from whileLoop_measure [of ?I2 s1 ?c2 evictByAdaptivePolicy
      "\<lambda>t. length (m_thumbnails t)", OF I2 step2]
  obtain s2 where s2: "whileLoop ?c2 evictByAdaptivePolicy s1 = Some s2" "?I2 s2" "\<not> ?c2 s2"
    by blast
  from False s1(1) s2(1) have "cleanupCache s now = Some s2"
    by (simp add: cleanupCache_def)
  with s2 show ?thesis by (auto simp: not_less)
qed

lemma evictLeastRecentlyUsed_shrinks:
  assumes "m_thumbnails t \<noteq> []"
  shows "length (m_thumbnails (evictLeastRecentlyUsed t)) < length (m_thumbnails t) \<and>
         m_maxCacheSize (evictLeastRecentlyUsed t) = m_maxCacheSize t \<and>
         m_maxMemory (evictLeastRecentlyUsed t) = m_maxMemory t"
proof -
  from evictLeastRecentlyUsed_removes [OF assms] obtain e where e:
    "e \<in> set (m_thumbnails t)"
    "evictLeastRecentlyUsed t =
       t\<lparr>m_currentMemory := m_currentMemory t - memorySize (snd e),
         m_thumbnails := AList.delete (fst e) (m_thumbnails t)\<rparr>"
    by blast
  from length_delete_less [OF e(1)] e(2) show ?thesis by simp
qed

lemma setCacheSize_returns:
  "\<exists>s'. setCacheSize s maxItems = Some s' \<and> m_maxCacheSize s' = max 1 maxItems \<and>
        int (length (m_thumbnails s')) \<le> m_maxCacheSize s'"
proof -
  let ?c = "\<lambda>t. int (length (m_thumbnails t)) > m_maxCacheSize t"
  let ?I = "\<lambda>t. m_maxCacheSize t = max 1 maxItems"
  have I: "?I (s\<lparr>m_maxCacheSize := max 1 maxItems\<rparr>)" by simp
  have step: "?I (evictLeastRecentlyUsed t) \<and>
        length (m_thumbnails (evictLeastRecentlyUsed t)) < length (m_thumbnails t)"
    if "?I t" and "?c t" for t
  proof -
    from that have "m_thumbnails t \<noteq> []" by auto
    from evictLeastRecentlyUsed_shrinks [OF this] that show ?thesis by simp
  qed
  from whileLoop_measure [of ?I "s\<lparr>m_maxCacheSize := max 1 maxItems\<rparr>" ?c
      evictLeastRecentlyUsed "\<lambda>t. length (m_thumbnails t)", OF I step]
  show ?thesis by (auto simp: setCacheSize_def not_less)
qed

lemma setMemoryLimit_returns:
  "\<exists>s'. setMemoryLimit s maxMemory = Some s' \<and>
        m_maxMemory s' = max (1024 * 1024) maxMemory \<and>
        (m_currentMemory s' \<le> m_maxMemory s' \<or> m_thumbnails s' = [])"
proof -
  let ?c = "\<lambda>t. m_currentMemory t > m_maxMemory t \<and> m_thumbnails t \<noteq> []"
  let ?I = "\<lambda>t. m_maxMemory t = max (1024 * 1024) maxMemory"
  have I: "?I (s\<lparr>m_maxMemory := max (1024 * 1024) maxMemory\<rparr>)" by simp
  have step: "?I (evictLeastRecentlyUsed t) \<and>
        length (m_thumbnails (evictLeastRecentlyUsed t)) < length (m_thumbnails t)"
    if "?I t" and "?c t" for t
  proof -
    from that have "m_thumbnails t \<noteq> []" by auto
    from evictLeastRecentlyUsed_shrinks [OF this] that show ?thesis by simp
  qed
  from whileLoop_measure [of ?I "s\<lparr>m_maxMemory := max (1024 * 1024) maxMemory\<rparr>" ?c
      evictLeastRecentlyUsed "\<lambda>t. length (m_thumbnails t)", OF I step]
  show ?thesis by (auto simp: setMemoryLimit_def not_less)
qed

subsection \<open>Every operation keeps the invariant, but a repeated completion\<close>

text \<open>
  Every operation returns and keeps the object well-formed, provided its clock reading
  is below \<^verbatim>\<open>LLONG_MAX\<close>, no access count is about to overflow and ten can be added
  to the item-count ceiling without overflow (lemma \<open>well_formed_perform\<close>). It keeps
  the accounting as well, unless it is a completion for an entry that already holds an
  image (lemma \<open>accounted_perform\<close>).
\<close>

lemma updateAccessFrequency_fields:
  "m_thumbnails (updateAccessFrequency s p) = m_thumbnails s"
  "generatorCalls (updateAccessFrequency s p) = generatorCalls s"
  "m_currentMemory (updateAccessFrequency s p) = m_currentMemory s"
  by (simp_all add: updateAccessFrequency_def Let_def)

lemma fold_bytes:
  "fold (\<lambda>item totalMemory. totalMemory + memorySize (snd item)) xs a = a + storedBytes xs"
  by (induction xs arbitrary: a) (auto simp: storedBytes_def)

lemma accounted_iff:
  "accounted s \<longleftrightarrow>
     m_currentMemory s = storedBytes (m_thumbnails s) \<and>
     (\<forall>e \<in> set (m_thumbnails s). isNull (pixmap (snd e)) \<longrightarrow> memorySize (snd e) = 0)"
  by (auto simp: accounted_def updateMemoryUsage_def fold_bytes)

lemma bytes_update_present:
  "map_of xs k = Some old \<Longrightarrow>
     storedBytes (AList.update k v xs) = storedBytes xs - memorySize old + memorySize v"
  by (induction xs) (auto simp: storedBytes_def split: if_splits)

lemma bytes_update_absent:
  "map_of xs k = None \<Longrightarrow> storedBytes (AList.update k v xs) = storedBytes xs + memorySize v"
  by (induction xs) (auto simp: storedBytes_def split: if_splits)

lemma bytes_delete:
  "distinct (map fst xs) \<Longrightarrow> e \<in> set xs \<Longrightarrow>
     storedBytes (AList.delete (fst e) xs) = storedBytes xs - memorySize (snd e)"
  by (induction xs) (auto simp: storedBytes_def rev_image_eqI)

lemma clearPixmaps_result:
  "clearPixmaps xs mem = (ys, mem') \<Longrightarrow>
     mem' - storedBytes ys = mem - storedBytes xs \<and>
     map fst ys = map fst xs \<and>
     map (\<lambda>e. lastAccessed (snd e)) ys = map (\<lambda>e. lastAccessed (snd e)) xs \<and>
     ((\<forall>e \<in> set xs. isNull (pixmap (snd e)) \<longrightarrow> memorySize (snd e) = 0) \<longrightarrow>
      (\<forall>e \<in> set ys. isNull (pixmap (snd e)) \<longrightarrow> memorySize (snd e) = 0))"
proof (induction xs arbitrary: mem ys mem')
  case Nil
  then show ?case by (simp add: storedBytes_def)
next
  case (Cons x xs)
  show ?case
  proof (cases "isNull (pixmap (snd x))")
    case True
    obtain zs m where r: "clearPixmaps xs mem = (zs, m)" by (cases "clearPixmaps xs mem") auto
    with Cons.prems True have "ys = x # zs" "mem' = m" by auto
    with Cons.IH [OF r] show ?thesis by (auto simp: storedBytes_def)
  next
    case False
    obtain zs m where r: "clearPixmaps xs (mem - memorySize (snd x)) = (zs, m)"
      by (cases "clearPixmaps xs (mem - memorySize (snd x))") auto
    with Cons.prems False have
      "ys = (fst x, (snd x)\<lparr>pixmap := NullPixmap, memorySize := 0, isLoading := False\<rparr>) # zs"
      "mem' = m" by auto
    with Cons.IH [OF r] show ?thesis by (auto simp: storedBytes_def)
  qed
qed

lemma cache_inv_replace:
  assumes "cache_inv a s" and "map_of (m_thumbnails s) k = Some old"
    and "m_thumbnails t = AList.update k v (m_thumbnails s)"
    and "a \<longrightarrow> m_currentMemory t = m_currentMemory s - memorySize old + memorySize v"
    and "m_accessFrequency t = m_accessFrequency s"
    and "m_maxCacheSize t = m_maxCacheSize s"
    and "lastAccessed v < LLONG_MAX"
    and "a \<longrightarrow> isNull (pixmap v) \<longrightarrow> memorySize v = 0"
  shows "cache_inv a t"
proof -
  from assms(2) have "(k, old) \<in> set (m_thumbnails s)" by (rule map_of_SomeD)
  with assms(1) have key: "0 \<le> k" by (auto simp: cache_inv_def store_wf_def)
  from assms(1) key assms(3,5,7) have "store_wf t"
    by (auto simp: cache_inv_def store_wf_def distinct_update
        dest!: subsetD [OF set_update_subset])
  moreover from assms(1,3,4,8) have "a \<longrightarrow> accounted t"
    by (auto simp: cache_inv_def accounted_iff bytes_update_present [OF assms(2)]
        dest!: subsetD [OF set_update_subset])
  ultimately show ?thesis using assms(1,6) by (simp add: cache_inv_def)
qed

lemma cache_inv_insert:
  assumes "cache_inv a s" and "map_of (m_thumbnails s) k = None" and "0 \<le> k"
    and "m_thumbnails t = AList.update k v (m_thumbnails s)"
    and "a \<longrightarrow> m_currentMemory t = m_currentMemory s + memorySize v"
    and "m_accessFrequency t = m_accessFrequency s"
    and "m_maxCacheSize t = m_maxCacheSize s"
    and "lastAccessed v < LLONG_MAX"
    and "a \<longrightarrow> isNull (pixmap v) \<longrightarrow> memorySize v = 0"
  shows "cache_inv a t"
proof -
  from assms(1,3,4,6,8) have "store_wf t"
    by (auto simp: cache_inv_def store_wf_def distinct_update
        dest!: subsetD [OF set_update_subset])
  moreover from assms(1,4,5,9) have "a \<longrightarrow> accounted t"
    by (auto simp: cache_inv_def accounted_iff bytes_update_absent [OF assms(2)]
        dest!: subsetD [OF set_update_subset])
  ultimately show ?thesis using assms(1,7) by (simp add: cache_inv_def)
qed

lemma store_wf_subset:
  assumes "store_wf s"
    and "distinct (map fst (m_thumbnails t))" and "set (m_thumbnails t) \<subseteq> set (m_thumbnails s)"
    and "distinct (map fst (m_accessFrequency t))"
    and "set (m_accessFrequency t) \<subseteq> set (m_accessFrequency s)"
  shows "store_wf t"
  using assms unfolding store_wf_def by blast

lemma updateAccessFrequency_maxCacheSize:
  "m_maxCacheSize (updateAccessFrequency s p) = m_maxCacheSize s"
  by (simp add: updateAccessFrequency_def Let_def)

lemma cache_inv_remove:
  assumes "cache_inv a s" and "e \<in> set (m_thumbnails s)"
    and "m_thumbnails t = AList.delete (fst e) (m_thumbnails s)"
    and "a \<longrightarrow> m_currentMemory t = m_currentMemory s - memorySize (snd e)"
    and "m_accessFrequency t = m_accessFrequency s \<or>
         m_accessFrequency t = AList.delete k' (m_accessFrequency s)"
    and "m_maxCacheSize t = m_maxCacheSize s"
  shows "cache_inv a t"
proof -
  from assms(1) have wf: "store_wf s" and acc: "a \<longrightarrow> accounted s"
    and cap: "0 \<le> m_maxCacheSize s"
    by (simp_all add: cache_inv_def)
  from wf have d: "distinct (map fst (m_thumbnails s))"
    and daf: "distinct (map fst (m_accessFrequency s))"
    by (simp_all add: store_wf_def)
  have sub: "set (m_thumbnails t) \<subseteq> set (m_thumbnails s)"
    unfolding assms(3) by (rule set_delete_subset)
  have dt: "distinct (map fst (m_thumbnails t))"
    unfolding assms(3) using d by (rule distinct_delete)
  from assms(5) have af: "distinct (map fst (m_accessFrequency t)) \<and>
      set (m_accessFrequency t) \<subseteq> set (m_accessFrequency s)"
  proof
    assume "m_accessFrequency t = m_accessFrequency s"
    with daf show ?thesis by simp
  next
    assume "m_accessFrequency t = AList.delete k' (m_accessFrequency s)"
    with daf show ?thesis by (simp add: distinct_delete set_delete_subset)
  qed
  from wf dt sub af have "store_wf t" by (intro store_wf_subset [OF wf]) simp_all
  moreover have "accounted t" if a
  proof -
    from acc that have "m_currentMemory s = storedBytes (m_thumbnails s)"
      and j: "\<forall>x \<in> set (m_thumbnails s). isNull (pixmap (snd x)) \<longrightarrow> memorySize (snd x) = 0"
      by (simp_all add: accounted_iff)
    with assms(3,4) that bytes_delete [OF d assms(2)]
    have "m_currentMemory t = storedBytes (m_thumbnails t)" by simp
    moreover from j sub
    have "\<forall>x \<in> set (m_thumbnails t). isNull (pixmap (snd x)) \<longrightarrow> memorySize (snd x) = 0"
      by blast
    ultimately show ?thesis by (simp add: accounted_iff)
  qed
  ultimately show ?thesis using cap assms(6) by (simp add: cache_inv_def)
qed

lemma cache_inv_cong:
  assumes "cache_inv a s" and "m_thumbnails t = m_thumbnails s"
    and "m_currentMemory t = m_currentMemory s"
    and "m_accessFrequency t = m_accessFrequency s"
    and "m_maxCacheSize t = m_maxCacheSize s"
  shows "cache_inv a t"
  using assms by (simp add: cache_inv_def store_wf_def accounted_iff)

lemma cache_inv_updateAccessFrequency:
  assumes "cache_inv a s" and "\<forall>e \<in> set (m_accessFrequency s). snd e < INT_MAX"
  shows "cache_inv a (updateAccessFrequency s p)"
proof -
  let ?af = "AList.update p (int32 (frequencyOf s p + 1)) (m_accessFrequency s)"
  from assms(1) have d: "distinct (map fst ?af)"
    by (simp add: cache_inv_def store_wf_def distinct_update)
  have b: "\<forall>e \<in> set ?af. snd e \<le> INT_MAX"
  proof
    fix e assume "e \<in> set ?af"
    with set_update_subset [of p "int32 (frequencyOf s p + 1)" "m_accessFrequency s"]
    have "e = (p, int32 (frequencyOf s p + 1)) \<or> e \<in> set (m_accessFrequency s)" by auto
    with assms(2) int32_le [of "frequencyOf s p + 1"] show "snd e \<le> INT_MAX" by auto
  qed
  have "m_accessFrequency (updateAccessFrequency s p) = ?af \<or>
        m_accessFrequency (updateAccessFrequency s p) = filter (\<lambda>e. \<not> snd e \<le> 1) ?af"
    by (simp add: updateAccessFrequency_def Let_def)
  with d b have "distinct (map fst (m_accessFrequency (updateAccessFrequency s p))) \<and>
        (\<forall>e \<in> set (m_accessFrequency (updateAccessFrequency s p)). snd e \<le> INT_MAX)"
    by (auto simp: distinct_map_filter)
  with assms(1) show ?thesis
    by (simp add: cache_inv_def store_wf_def accounted_iff updateAccessFrequency_fields
        updateAccessFrequency_maxCacheSize)
qed

lemma cache_inv_beginLoad:
  assumes "cache_inv a s" and "now < LLONG_MAX" and "0 \<le> pageNumber"
    and "case map_of (m_thumbnails s) pageNumber of
           None \<Rightarrow> memorySize item = 0
         | Some old \<Rightarrow> memorySize item = memorySize old \<and> pixmap item = pixmap old"
  shows "cache_inv a (beginLoad s now pageNumber item)"
proof (cases "map_of (m_thumbnails s) pageNumber")
  case None
  with assms show ?thesis
    by (intro cache_inv_insert [OF assms(1) None assms(3), where v = "item\<lparr>isLoading := True,
        hasError := False, errorMessage := [], lastAccessed := now\<rparr>"])
      (simp_all add: beginLoad_def)
next
  case (Some old)
  then have "(pageNumber, old) \<in> set (m_thumbnails s)" by (rule map_of_SomeD)
  with assms(1) have "a \<longrightarrow> isNull (pixmap old) \<longrightarrow> memorySize old = 0"
    by (auto simp: cache_inv_def accounted_iff)
  with assms Some show ?thesis
    by (intro cache_inv_replace [OF assms(1) Some, where v = "item\<lparr>isLoading := True,
        hasError := False, errorMessage := [], lastAccessed := now\<rparr>"])
      (simp_all add: beginLoad_def)
qed

lemma cache_inv_requestThumbnail:
  assumes "cache_inv a s" and "now < LLONG_MAX"
    and "hasCachedThumbnail s pageNumber \<longrightarrow> (\<forall>e \<in> set (m_accessFrequency s). snd e < INT_MAX)"
  shows "cache_inv a (requestThumbnail s now pageNumber)"
proof (cases "pageInDocument s pageNumber")
  case False
  with assms(1) show ?thesis by (simp add: requestThumbnail_def)
next
  case True
  then have key: "0 \<le> pageNumber" by (auto simp: pageInDocument_def split: option.splits)
  show ?thesis
  proof (cases "map_of (m_thumbnails s) pageNumber")
    case None
    with assms(1) True show ?thesis
      by (auto simp: requestThumbnail_def ThumbnailItem_default_def
          intro!: cache_inv_beginLoad [OF assms(1) assms(2) key])
  next
    case (Some it)
    then have mem: "(pageNumber, it) \<in> set (m_thumbnails s)" by (rule map_of_SomeD)
    with assms(1) have j: "a \<longrightarrow> isNull (pixmap it) \<longrightarrow> memorySize it = 0"
      by (auto simp: cache_inv_def accounted_iff)
    let ?t = "s\<lparr>m_thumbnails :=
                 AList.update pageNumber (it\<lparr>lastAccessed := now\<rparr>) (m_thumbnails s)\<rparr>"
    have t: "cache_inv a ?t"
      using assms(2) j
      by (intro cache_inv_replace [OF assms(1) Some, where v = "it\<lparr>lastAccessed := now\<rparr>"])
        simp_all
    have touch: "cache_inv a (updateAccessFrequency ?t pageNumber)" if "\<not> isNull (pixmap it)"
    proof -
      from that Some assms(3) have "\<forall>e \<in> set (m_accessFrequency ?t). snd e < INT_MAX"
        by (simp add: hasCachedThumbnail_def)
      with t show ?thesis by (rule cache_inv_updateAccessFrequency)
    qed
    have load: "cache_inv a (beginLoad s now pageNumber
        (if hasError it then it\<lparr>hasError := False, errorMessage := []\<rparr> else it))"
      using Some by (intro cache_inv_beginLoad [OF assms(1) assms(2) key]) simp
    from assms(1) Some touch load show ?thesis
      by (simp add: requestThumbnail_def)
  qed
qed

lemma cache_inv_refreshThumbnail:
  assumes "cache_inv a s" and "now < LLONG_MAX"
  shows "cache_inv a (refreshThumbnail s now pageNumber)"
proof (cases "pageInDocument s pageNumber")
  case False
  with assms(1) show ?thesis by (simp add: refreshThumbnail_def)
next
  case True
  show ?thesis
  proof (cases "map_of (m_thumbnails s) pageNumber")
    case None
    then have "\<not> hasCachedThumbnail s pageNumber" by (simp add: hasCachedThumbnail_def)
    with assms have "cache_inv a (requestThumbnail s now pageNumber)"
      by (intro cache_inv_requestThumbnail) simp_all
    with True None show ?thesis by (simp add: refreshThumbnail_def)
  next
    case (Some it)
    let ?t = "s\<lparr>m_currentMemory := m_currentMemory s - memorySize it,
                 m_thumbnails := AList.delete pageNumber (m_thumbnails s)\<rparr>"
    from Some have "(pageNumber, it) \<in> set (m_thumbnails s)" by (rule map_of_SomeD)
    from cache_inv_remove [OF assms(1) this, of ?t] have t: "cache_inv a ?t" by simp
    have "\<not> hasCachedThumbnail ?t pageNumber"
      by (simp add: hasCachedThumbnail_def AList.delete_conv')
    with t assms(2) have "cache_inv a (requestThumbnail ?t now pageNumber)"
      by (intro cache_inv_requestThumbnail) simp_all
    with True Some show ?thesis by (simp add: refreshThumbnail_def)
  qed
qed

lemma cache_inv_onThumbnailError:
  assumes "cache_inv a s" and "now < LLONG_MAX"
  shows "cache_inv a (onThumbnailError s now pageNumber err)"
proof (cases "map_of (m_thumbnails s) pageNumber")
  case None
  with assms(1) show ?thesis by (simp add: onThumbnailError_def)
next
  case (Some it)
  then have "(pageNumber, it) \<in> set (m_thumbnails s)" by (rule map_of_SomeD)
  with assms(1) have j: "a \<longrightarrow> isNull (pixmap it) \<longrightarrow> memorySize it = 0"
    by (auto simp: cache_inv_def accounted_iff)
  have "cache_inv a (s\<lparr>m_thumbnails := AList.update pageNumber
      (it\<lparr>isLoading := False, hasError := True, errorMessage := err, lastAccessed := now\<rparr>)
      (m_thumbnails s)\<rparr>)"
    using assms(2) j
    by (intro cache_inv_replace [OF assms(1) Some, where v = "it\<lparr>isLoading := False,
        hasError := True, errorMessage := err, lastAccessed := now\<rparr>"]) simp_all
  with Some show ?thesis by (simp add: onThumbnailError_def)
qed

lemma cache_inv_data:
  assumes "cache_inv a s" and "now < LLONG_MAX"
    and "\<forall>e \<in> set (m_accessFrequency s). snd e < INT_MAX"
  shows "cache_inv a (snd (data s now idx role))"
proof (cases "\<not> isValid idx \<or> m_document s = None \<or> \<not> pageInDocument s (indexRow idx)")
  case True
  with assms(1) show ?thesis by (auto simp: data_def)
next
  case False
  let ?p = "indexRow idx"
  from False obtain d where valid: "isValid idx" "m_document s = Some d" "pageInDocument s ?p"
    by auto
  then have key: "0 \<le> ?p" by (auto simp: pageInDocument_def split: option.splits)
  have j: "a \<longrightarrow> isNull (pixmap it) \<longrightarrow> memorySize it = 0"
    if "map_of (m_thumbnails s) ?p = Some it" for it
  proof -
    from that have "(?p, it) \<in> set (m_thumbnails s)" by (rule map_of_SomeD)
    with assms(1) show ?thesis by (auto simp: cache_inv_def accounted_iff)
  qed
  show ?thesis
  proof (cases role)
    case PixmapRole
    show ?thesis
    proof (cases "map_of (m_thumbnails s) ?p")
      case None
      then have "\<not> hasCachedThumbnail (s\<lparr>m_cacheMisses := m_cacheMisses s + 1\<rparr>) ?p"
        by (simp add: hasCachedThumbnail_def)
      moreover from assms(1) have "cache_inv a (s\<lparr>m_cacheMisses := m_cacheMisses s + 1\<rparr>)"
        by (rule cache_inv_cong) simp_all
      ultimately have "cache_inv a (requestThumbnail (s\<lparr>m_cacheMisses := m_cacheMisses s + 1\<rparr>)
          now ?p)"
        using assms(2) by (intro cache_inv_requestThumbnail) simp_all
      with valid PixmapRole None show ?thesis by (simp add: data_def)
    next
      case (Some it)
      let ?t = "s\<lparr>m_thumbnails :=
                   AList.update ?p (it\<lparr>lastAccessed := now\<rparr>) (m_thumbnails s)\<rparr>"
      let ?s1 = "updateAccessFrequency ?t ?p"
      have "cache_inv a ?t"
        using assms(2) j [OF Some]
        by (intro cache_inv_replace [OF assms(1) Some, where v = "it\<lparr>lastAccessed := now\<rparr>"])
          simp_all
      moreover from assms(3) have "\<forall>e \<in> set (m_accessFrequency ?t). snd e < INT_MAX" by simp
      ultimately have s1: "cache_inv a ?s1" by (rule cache_inv_updateAccessFrequency)
      then have hit: "cache_inv a (?s1\<lparr>m_cacheHits := m_cacheHits ?s1 + 1\<rparr>)"
        by (rule cache_inv_cong) simp_all
      from s1 have m: "cache_inv a (?s1\<lparr>m_cacheMisses := m_cacheMisses ?s1 + 1\<rparr>)"
        by (rule cache_inv_cong) simp_all
      have miss: "cache_inv a (requestThumbnail (?s1\<lparr>m_cacheMisses := m_cacheMisses ?s1 + 1\<rparr>)
          now ?p)" if "isNull (pixmap it)"
      proof -
        from that have "\<not> hasCachedThumbnail (?s1\<lparr>m_cacheMisses := m_cacheMisses ?s1 + 1\<rparr>) ?p"
          by (simp add: hasCachedThumbnail_def updateAccessFrequency_fields AList.update_conv')
        with m assms(2) show ?thesis by (intro cache_inv_requestThumbnail) simp_all
      qed
      from valid PixmapRole Some hit miss show ?thesis
        by (simp add: data_def Let_def)
    qed
  next
    case PageSizeRole
    show ?thesis
    proof (cases "map_of (m_thumbnails s) ?p")
      case None
      have "cache_inv a (s\<lparr>m_thumbnails := AList.update ?p
          (ThumbnailItem_default\<lparr>pageSize := sz\<rparr>) (m_thumbnails s)\<rparr>)" for sz
        by (intro cache_inv_insert [OF assms(1) None key,
              where v = "ThumbnailItem_default\<lparr>pageSize := sz\<rparr>"])
          (simp_all add: ThumbnailItem_default_def LLONG_MAX_def)
      with assms(1) valid PageSizeRole None show ?thesis
        by (auto simp: data_def Let_def split: option.splits)
    next
      case (Some it)
      then have "(?p, it) \<in> set (m_thumbnails s)" by (rule map_of_SomeD)
      with assms(1) have "lastAccessed it < LLONG_MAX"
        by (auto simp: cache_inv_def store_wf_def)
      then have "cache_inv a (s\<lparr>m_thumbnails := AList.update ?p
          (it\<lparr>pageSize := sz\<rparr>) (m_thumbnails s)\<rparr>)" for sz
        using j [OF Some]
        by (intro cache_inv_replace [OF assms(1) Some, where v = "it\<lparr>pageSize := sz\<rparr>"])
          simp_all
      with assms(1) valid PageSizeRole Some show ?thesis
        by (auto simp: data_def Let_def split: option.splits)
    qed
  qed (use assms(1) valid in \<open>simp_all add: data_def Let_def\<close>)
qed

lemma cache_inv_evictLeastRecentlyUsed:
  assumes "cache_inv a s" and "m_thumbnails s \<noteq> []"
  shows "cache_inv a (evictLeastRecentlyUsed s) \<and>
         length (m_thumbnails (evictLeastRecentlyUsed s)) < length (m_thumbnails s)"
proof -
  from evictLeastRecentlyUsed_removes [OF assms(2)] obtain e where e:
    "e \<in> set (m_thumbnails s)"
    "evictLeastRecentlyUsed s =
       s\<lparr>m_currentMemory := m_currentMemory s - memorySize (snd e),
         m_thumbnails := AList.delete (fst e) (m_thumbnails s)\<rparr>"
    by blast
  from cache_inv_remove [OF assms(1) e(1), of "evictLeastRecentlyUsed s"] e(2)
  have "cache_inv a (evictLeastRecentlyUsed s)" by simp
  with length_delete_less [OF e(1)] e(2) show ?thesis by simp
qed

lemma cache_inv_evictByAdaptivePolicy:
  assumes "cache_inv a s" and "m_thumbnails s \<noteq> []"
  shows "cache_inv a (evictByAdaptivePolicy s) \<and>
         length (m_thumbnails (evictByAdaptivePolicy s)) < length (m_thumbnails s)"
proof (cases "\<not> m_adaptiveCaching s \<or> calculateCacheEfficiency s > 0.7")
  case True
  then have "evictByAdaptivePolicy s = evictLeastRecentlyUsed s"
    by (auto simp: evictByAdaptivePolicy_def)
  with cache_inv_evictLeastRecentlyUsed [OF assms] show ?thesis by simp
next
  case False
  then have eq: "evictByAdaptivePolicy s = evictLeastFrequentlyUsed s"
    by (auto simp: evictByAdaptivePolicy_def)
  from assms(1) have wf: "store_wf s" by (simp add: cache_inv_def)
  from evictLeastFrequentlyUsed_removes [OF wf assms(2)] obtain e where e:
    "e \<in> set (m_thumbnails s)"
    "evictLeastFrequentlyUsed s =
       s\<lparr>m_currentMemory := m_currentMemory s - memorySize (snd e),
         m_thumbnails := AList.delete (fst e) (m_thumbnails s),
         m_accessFrequency := AList.delete (fst e) (m_accessFrequency s)\<rparr>"
    by blast
  from cache_inv_remove [OF assms(1) e(1), of "evictLeastFrequentlyUsed s" "fst e"] e(2)
  have "cache_inv a (evictLeastFrequentlyUsed s)" by simp
  with length_delete_less [OF e(1)] e(2) eq show ?thesis by simp
qed

lemma cache_inv_whileLoop:
  assumes "cache_inv a s"
    and nonempty: "\<And>t. cache_inv a t \<Longrightarrow> c t \<Longrightarrow> m_thumbnails t \<noteq> []"
    and body: "body = evictByAdaptivePolicy \<or> body = evictLeastRecentlyUsed"
  shows "\<exists>s'. whileLoop c body s = Some s' \<and> cache_inv a s' \<and> \<not> c s'"
proof -
  have step: "cache_inv a (body t) \<and> length (m_thumbnails (body t)) < length (m_thumbnails t)"
    if "cache_inv a t" and "c t" for t
    using body cache_inv_evictByAdaptivePolicy [OF that(1) nonempty [OF that]]
      cache_inv_evictLeastRecentlyUsed [OF that(1) nonempty [OF that]]
    by auto
  from whileLoop_measure [of "cache_inv a" s c body "\<lambda>t. length (m_thumbnails t)", OF assms(1) step]
  show ?thesis .
qed

lemma cache_inv_onThumbnailGenerated:
  assumes "cache_inv a s" and "now < LLONG_MAX"
    and "a \<longrightarrow> \<not> hasCachedThumbnail s pageNumber"
  shows "\<exists>s'. onThumbnailGenerated s now pageNumber pm = Some s' \<and> cache_inv a s'"
proof (cases "map_of (m_thumbnails s) pageNumber")
  case None
  with assms(1) show ?thesis by (simp add: onThumbnailGenerated_def)
next
  case (Some it)
  define item where "item = it\<lparr>pixmap := pm, isLoading := False, hasError := False,
      errorMessage := [], lastAccessed := now, memorySize := calculatePixmapMemory pm\<rparr>"
  define s1 where "s1 = s\<lparr>m_thumbnails := AList.update pageNumber item (m_thumbnails s),
      m_currentMemory := m_currentMemory s + memorySize item\<rparr>"
  let ?c = "\<lambda>t. m_currentMemory t > m_maxMemory t \<and> length (m_thumbnails t) > 1"
  from Some assms(3) have null: "a \<longrightarrow> isNull (pixmap it)"
    by (simp add: hasCachedThumbnail_def)
  from Some have "(pageNumber, it) \<in> set (m_thumbnails s)" by (rule map_of_SomeD)
  with assms(1) null have old: "a \<longrightarrow> memorySize it = 0"
    by (auto simp: cache_inv_def accounted_iff)
  have "cache_inv a s1"
    using assms(2) old
    by (intro cache_inv_replace [OF assms(1) Some, where v = item])
      (simp_all add: s1_def item_def calculatePixmapMemory_def)
  then have "\<exists>s'. whileLoop ?c evictByAdaptivePolicy s1 = Some s' \<and> cache_inv a s' \<and> \<not> ?c s'"
    by (rule cache_inv_whileLoop) auto
  moreover have "onThumbnailGenerated s now pageNumber pm = whileLoop ?c evictByAdaptivePolicy s1"
    using Some by (simp add: onThumbnailGenerated_def s1_def item_def Let_def)
  ultimately show ?thesis by auto
qed

lemma cache_inv_adaptCacheSize:
  "cache_inv a s \<Longrightarrow> m_maxCacheSize s \<le> INT_MAX - 10 \<Longrightarrow> cache_inv a (adaptCacheSize s now)"
  by (simp add: cache_inv_def store_wf_def accounted_iff adaptCacheSize_fields)

lemma cache_inv_cleanupCache:
  assumes "cache_inv a s" and "m_maxCacheSize s \<le> INT_MAX - 10"
  shows "\<exists>s'. cleanupCache s now = Some s' \<and> cache_inv a s'"
proof (cases "m_thumbnails s = []")
  case True
  with assms(1) show ?thesis by (simp add: cleanupCache_def)
next
  case False
  let ?c1 = "\<lambda>t. int (length (m_thumbnails t)) > m_maxCacheSize t"
  let ?c2 = "\<lambda>t. m_currentMemory t > m_maxMemory t \<and> m_thumbnails t \<noteq> []"
  from assms have "cache_inv a (adaptCacheSize s now)" by (rule cache_inv_adaptCacheSize)
  then have "\<exists>s'. whileLoop ?c1 evictByAdaptivePolicy (adaptCacheSize s now) = Some s' \<and>
      cache_inv a s' \<and> \<not> ?c1 s'"
    by (rule cache_inv_whileLoop) (auto simp: cache_inv_def)
  then obtain s1 where s1: "whileLoop ?c1 evictByAdaptivePolicy (adaptCacheSize s now) = Some s1"
    "cache_inv a s1" by blast
  from s1(2) have "\<exists>s'. whileLoop ?c2 evictByAdaptivePolicy s1 = Some s' \<and>
      cache_inv a s' \<and> \<not> ?c2 s'"
    by (rule cache_inv_whileLoop) auto
  with False s1(1) show ?thesis by (auto simp: cleanupCache_def)
qed

lemma cache_inv_setCacheSize:
  assumes "cache_inv a s"
  shows "\<exists>s'. setCacheSize s maxItems = Some s' \<and> cache_inv a s'"
proof -
  let ?c = "\<lambda>t. int (length (m_thumbnails t)) > m_maxCacheSize t"
  from assms have "cache_inv a (s\<lparr>m_maxCacheSize := max 1 maxItems\<rparr>)"
    by (simp add: cache_inv_def store_wf_def accounted_iff)
  then have "\<exists>s'. whileLoop ?c evictLeastRecentlyUsed (s\<lparr>m_maxCacheSize := max 1 maxItems\<rparr>)
      = Some s' \<and> cache_inv a s' \<and> \<not> ?c s'"
    by (rule cache_inv_whileLoop) (auto simp: cache_inv_def)
  then show ?thesis by (auto simp: setCacheSize_def)
qed

lemma cache_inv_setMemoryLimit:
  assumes "cache_inv a s"
  shows "\<exists>s'. setMemoryLimit s maxMemory = Some s' \<and> cache_inv a s'"
proof -
  let ?c = "\<lambda>t. m_currentMemory t > m_maxMemory t \<and> m_thumbnails t \<noteq> []"
  from assms have "cache_inv a (s\<lparr>m_maxMemory := max (1024 * 1024) maxMemory\<rparr>)"
    by (rule cache_inv_cong) simp_all
  then have "\<exists>s'. whileLoop ?c evictLeastRecentlyUsed
      (s\<lparr>m_maxMemory := max (1024 * 1024) maxMemory\<rparr>) = Some s' \<and> cache_inv a s' \<and> \<not> ?c s'"
    by (rule cache_inv_whileLoop) auto
  then show ?thesis by (auto simp: setMemoryLimit_def)
qed

lemma cache_inv_clearPixmaps:
  assumes "cache_inv a s" and "clearPixmaps (m_thumbnails s) (m_currentMemory s) = (items, mem)"
    and "m_thumbnails t = items" and "m_currentMemory t = mem"
    and "m_accessFrequency t = m_accessFrequency s" and "m_maxCacheSize t = m_maxCacheSize s"
  shows "cache_inv a t"
proof -
  from clearPixmaps_result [OF assms(2)] have r:
    "mem - storedBytes items = m_currentMemory s - storedBytes (m_thumbnails s)"
    "map fst items = map fst (m_thumbnails s)"
    "map (\<lambda>e. lastAccessed (snd e)) items = map (\<lambda>e. lastAccessed (snd e)) (m_thumbnails s)"
    "(\<forall>e \<in> set (m_thumbnails s). isNull (pixmap (snd e)) \<longrightarrow> memorySize (snd e) = 0) \<longrightarrow>
     (\<forall>e \<in> set items. isNull (pixmap (snd e)) \<longrightarrow> memorySize (snd e) = 0)"
    by simp_all
  from assms(1) have wf: "store_wf s" and acc: "a \<longrightarrow> accounted s"
    and cap: "0 \<le> m_maxCacheSize s"
    by (simp_all add: cache_inv_def)
  have keys: "\<forall>e \<in> set items. 0 \<le> fst e"
  proof
    fix e assume "e \<in> set items"
    then have "fst e \<in> set (map fst items)" by simp
    with r(2) have "fst e \<in> fst ` set (m_thumbnails s)" by simp
    with wf show "0 \<le> fst e" by (auto simp: store_wf_def)
  qed
  have times: "\<forall>e \<in> set items. lastAccessed (snd e) < LLONG_MAX"
  proof
    fix e assume "e \<in> set items"
    then have "lastAccessed (snd e) \<in> set (map (\<lambda>e. lastAccessed (snd e)) items)" by force
    with r(3) have "lastAccessed (snd e) \<in> (\<lambda>e. lastAccessed (snd e)) ` set (m_thumbnails s)"
      by simp
    with wf show "lastAccessed (snd e) < LLONG_MAX" by (auto simp: store_wf_def)
  qed
  from wf r(2) keys times assms(3,5) have "store_wf t" by (simp add: store_wf_def)
  moreover from acc r(1) r(4) assms(3,4) have "a \<longrightarrow> accounted t"
    by (auto simp: accounted_iff)
  ultimately show ?thesis using cap assms(6) by (simp add: cache_inv_def)
qed

lemma cache_inv_setThumbnailSize: "cache_inv a s \<Longrightarrow> cache_inv a (setThumbnailSize s sz)"
  by (cases "clearPixmaps (m_thumbnails s) (m_currentMemory s)")
    (auto simp: setThumbnailSize_def elim: cache_inv_clearPixmaps)

lemma cache_inv_setThumbnailQuality: "cache_inv a s \<Longrightarrow> cache_inv a (setThumbnailQuality s q)"
  by (cases "clearPixmaps (m_thumbnails s) (m_currentMemory s)")
    (auto simp: setThumbnailQuality_def elim: cache_inv_clearPixmaps)

lemma cache_inv_clearCache: "cache_inv a s \<Longrightarrow> cache_inv a (clearCache s)"
  by (simp add: cache_inv_def store_wf_def accounted_iff clearCache_def storedBytes_def)

lemma cache_inv_setDocument: "cache_inv a s \<Longrightarrow> cache_inv a (setDocument s document)"
  by (simp add: cache_inv_def store_wf_def accounted_iff clearCache_def setDocument_def
      storedBytes_def)

lemma updateViewportPriorities_fields:
  "m_thumbnails (updateViewportPriorities s) = m_thumbnails s"
  "m_currentMemory (updateViewportPriorities s) = m_currentMemory s"
  "m_accessFrequency (updateViewportPriorities s) = m_accessFrequency s"
  "m_maxCacheSize (updateViewportPriorities s) = m_maxCacheSize s"
  by (simp_all add: updateViewportPriorities_def Let_def split: option.splits)

lemma cache_inv_updateViewportPriorities:
  "cache_inv a s \<Longrightarrow> cache_inv a (updateViewportPriorities s)"
  by (erule cache_inv_cong) (simp_all add: updateViewportPriorities_fields)

lemma cache_inv_setViewportRange:
  assumes "cache_inv a s"
  shows "cache_inv a (setViewportRange s start end margin)"
proof -
  from assms have "cache_inv a (s\<lparr>m_visibleStart := start, m_visibleEnd := end,
      m_viewportMargin := margin\<rparr>)"
    by (rule cache_inv_cong) simp_all
  then show ?thesis
    by (simp add: setViewportRange_def Let_def cache_inv_updateViewportPriorities)
qed

lemma cache_inv_onPriorityUpdateTimer: "cache_inv a s \<Longrightarrow> cache_inv a (onPriorityUpdateTimer s)"
  by (simp add: onPriorityUpdateTimer_def cache_inv_updateViewportPriorities)

lemma cache_inv_updateMemoryUsage: "cache_inv a s \<Longrightarrow> cache_inv a (updateMemoryUsage s)"
  by (simp add: cache_inv_def store_wf_def accounted_iff updateMemoryUsage_def fold_bytes)

lemma cache_inv_new:
  "0 \<le> defaultCacheSize \<Longrightarrow>
     cache_inv a (newThumbnailModel defaultSize defaultQuality defaultCacheSize defaultMemoryLimit
       defaultPreloadRange)"
  by (simp add: cache_inv_def store_wf_def accounted_iff newThumbnailModel_def storedBytes_def)

lemma cache_inv_perform:
  assumes "cache_inv a s" and "opTime op < LLONG_MAX"
    and "\<forall>e \<in> set (m_accessFrequency s). snd e < INT_MAX"
    and "a \<longrightarrow> \<not> redelivery s op"
    and "m_maxCacheSize s \<le> INT_MAX - 10"
  shows "\<exists>s'. perform s op = Some s' \<and> cache_inv a s'"
proof (cases op)
  case (OnThumbnailGenerated now pageNumber pm)
  with assms cache_inv_onThumbnailGenerated [of a s now pageNumber pm] show ?thesis by simp
next
  case (RequestThumbnail now pageNumber)
  with assms cache_inv_requestThumbnail [of a s now pageNumber] show ?thesis by simp
next
  case (Data now idx role)
  with assms cache_inv_data [of a s now idx role] show ?thesis by simp
qed (use assms in \<open>simp_all add: cache_inv_setDocument cache_inv_setThumbnailSize
      cache_inv_setThumbnailQuality cache_inv_setCacheSize cache_inv_setMemoryLimit
      cache_inv_clearCache cache_inv_refreshThumbnail cache_inv_onThumbnailError
      cache_inv_cleanupCache cache_inv_setViewportRange cache_inv_onPriorityUpdateTimer
      cache_inv_updateMemoryUsage\<close>)

lemma well_formed_perform:
  assumes "store_wf s" and "0 \<le> m_maxCacheSize s" and "m_maxCacheSize s \<le> INT_MAX - 10"
    and "opTime op < LLONG_MAX"
    and "\<forall>e \<in> set (m_accessFrequency s). snd e < INT_MAX"
  shows "\<exists>s'. perform s op = Some s' \<and> store_wf s' \<and> 0 \<le> m_maxCacheSize s'"
proof -
  from assms(1,2) have "cache_inv False s" by (simp add: cache_inv_def)
  from cache_inv_perform [OF this assms(4,5) _ assms(3)] show ?thesis
    by (simp add: cache_inv_def)
qed

lemma accounted_perform:
  assumes "store_wf s" and "0 \<le> m_maxCacheSize s" and "m_maxCacheSize s \<le> INT_MAX - 10"
    and "accounted s"
    and "opTime op < LLONG_MAX"
    and "\<forall>e \<in> set (m_accessFrequency s). snd e < INT_MAX"
    and "\<not> redelivery s op"
  shows "\<exists>s'. perform s op = Some s' \<and> accounted s'"
proof -
  from assms(1,2,4) have "cache_inv True s" by (simp add: cache_inv_def)
  from cache_inv_perform [OF this assms(5,6) _ assms(3)] assms(7) show ?thesis
    by (auto simp: cache_inv_def)
qed

subsection \<open>Memory accounting\<close>

text \<open>
  C1 (the code at the failing input). Page 0 is requested and then refreshed while it is
  loading, so the generator is called twice for it and delivers twice. The second
  delivery overwrites the entry's \<open>memorySize\<close> and adds the new size to
  \<open>m_currentMemory\<close> without taking the old size off: the store holds one entry of
  76800 bytes, which is what \<open>updateMemoryUsage\<close> recomputes, while the tracked total is
  153600.
\<close>

theorem double_completion_counts_twice:
  "run emptyModel doubleDelivery = Some deliveredTwice \<and>
   map fst (generatorCalls deliveredTwice) = [0, 0] \<and>
   map fst (m_thumbnails deliveredTwice) = [0] \<and>
   storedBytes (m_thumbnails deliveredTwice) = 76800 \<and>
   m_currentMemory deliveredTwice = 153600 \<and>
   m_currentMemory (updateMemoryUsage deliveredTwice) = 76800"
  by (simp add: deliveredTwice_def doubleDelivery_def run_defs refreshThumbnail_def
      updateMemoryUsage_def storedBytes_def)

subsection \<open>The two ceilings\<close>

text \<open>
  C2 (as the code has it). On a well-formed object:
  \<^item> a completion for a cached page returns, and afterwards the tracked memory is within
    \<open>m_maxMemory\<close> or at most one entry is left; its loop never empties the store, and
    it does not look at \<open>m_maxCacheSize\<close> (the number of entries does not grow, but may
    stay above the ceiling);
  \<^item> when \<open>m_maxCacheSize\<close> is not negative and at most \<^verbatim>\<open>INT_MAX - 10\<close> (so that
    \<open>adaptCacheSize\<close> does not overflow), \<open>cleanupCache\<close> returns, and afterwards the
    number of entries is within \<open>m_maxCacheSize\<close> and the tracked memory is within
    \<open>m_maxMemory\<close> or the store is empty;
  \<^item> \<open>setCacheSize\<close> returns with the number of entries within the new ceiling, and
    \<open>setMemoryLimit\<close> returns with the tracked memory within the new limit or the store
    empty.
\<close>

theorem ceilings_after_operations:
  assumes "store_wf s" and "now < LLONG_MAX"
  shows "(map_of (m_thumbnails s) pageNumber \<noteq> None \<longrightarrow>
           (\<exists>s'. onThumbnailGenerated s now pageNumber pm = Some s' \<and>
              (m_currentMemory s' \<le> m_maxMemory s' \<or> length (m_thumbnails s') \<le> 1) \<and>
              m_thumbnails s' \<noteq> [] \<and>
              length (m_thumbnails s') \<le> length (m_thumbnails s))) \<and>
         (0 \<le> m_maxCacheSize s \<and> m_maxCacheSize s \<le> INT_MAX - 10 \<longrightarrow>
           (\<exists>s'. cleanupCache s now = Some s' \<and>
              int (length (m_thumbnails s')) \<le> m_maxCacheSize s' \<and>
              (m_currentMemory s' \<le> m_maxMemory s' \<or> m_thumbnails s' = []))) \<and>
         (\<exists>s'. setCacheSize s maxItems = Some s' \<and>
              m_maxCacheSize s' = max 1 maxItems \<and>
              int (length (m_thumbnails s')) \<le> m_maxCacheSize s') \<and>
         (\<exists>s'. setMemoryLimit s maxMemory = Some s' \<and>
              m_maxMemory s' = max (1024 * 1024) maxMemory \<and>
              (m_currentMemory s' \<le> m_maxMemory s' \<or> m_thumbnails s' = []))"
proof (intro conjI impI)
  assume "map_of (m_thumbnails s) pageNumber \<noteq> None"
  then obtain it where "map_of (m_thumbnails s) pageNumber = Some it" by blast
  from onThumbnailGenerated_returns [OF assms(1) assms(2) this]
  show "\<exists>s'. onThumbnailGenerated s now pageNumber pm = Some s' \<and>
              (m_currentMemory s' \<le> m_maxMemory s' \<or> length (m_thumbnails s') \<le> 1) \<and>
              m_thumbnails s' \<noteq> [] \<and>
              length (m_thumbnails s') \<le> length (m_thumbnails s)" .
next
  assume "0 \<le> m_maxCacheSize s \<and> m_maxCacheSize s \<le> INT_MAX - 10"
  then have "0 \<le> m_maxCacheSize s" "m_maxCacheSize s \<le> INT_MAX - 10" by simp_all
  from cleanupCache_returns [OF assms(1) this]
  show "\<exists>s'. cleanupCache s now = Some s' \<and>
              int (length (m_thumbnails s')) \<le> m_maxCacheSize s' \<and>
              (m_currentMemory s' \<le> m_maxMemory s' \<or> m_thumbnails s' = [])" .
next
  show "\<exists>s'. setCacheSize s maxItems = Some s' \<and>
              m_maxCacheSize s' = max 1 maxItems \<and>
              int (length (m_thumbnails s')) \<le> m_maxCacheSize s'"
    by (rule setCacheSize_returns)
next
  show "\<exists>s'. setMemoryLimit s maxMemory = Some s' \<and>
              m_maxMemory s' = max (1024 * 1024) maxMemory \<and>
              (m_currentMemory s' \<le> m_maxMemory s' \<or> m_thumbnails s' = [])"
    by (rule setMemoryLimit_returns)
qed

theorem ceilings_after_operations_witness:
  "store_wf tightModel \<and> 3000 < LLONG_MAX \<and>
   0 \<le> m_maxCacheSize tightModel \<and> m_maxCacheSize tightModel \<le> INT_MAX - 10 \<and>
   map_of (m_thumbnails tightModel) 1 \<noteq> None \<and>
   m_currentMemory tightModel > m_maxMemory tightModel \<and>
   (\<exists>s'. onThumbnailGenerated tightModel 3000 1 (Pixmap 600 500) = Some s' \<and>
      (m_currentMemory s' \<le> m_maxMemory s' \<or> length (m_thumbnails s') \<le> 1) \<and>
      m_thumbnails s' \<noteq> [] \<and>
      length (m_thumbnails s') \<le> length (m_thumbnails tightModel)) \<and>
   (\<exists>s'. cleanupCache tightModel 3000 = Some s' \<and>
      int (length (m_thumbnails s')) \<le> m_maxCacheSize s' \<and>
      (m_currentMemory s' \<le> m_maxMemory s' \<or> m_thumbnails s' = []))"
proof -
  have h: "store_wf tightModel" "3000 < LLONG_MAX"
    by (simp_all add: store_wf_def tightModel_fields LLONG_MAX_def)
  have p: "map_of (m_thumbnails tightModel) 1 \<noteq> None"
    "m_currentMemory tightModel > m_maxMemory tightModel"
    "0 \<le> m_maxCacheSize tightModel" "m_maxCacheSize tightModel \<le> INT_MAX - 10"
    by (simp_all add: tightModel_fields INT_MAX_def)
  from ceilings_after_operations [OF h, of 1 "Pixmap 600 500"] p h show ?thesis by blast
qed

text \<open>
  The claim as the spec words it fails twice. With a ceiling of one entry, two requests
  and one completion leave two entries in the store. And \<open>cleanupCache\<close> removes the only
  entry of a store when that entry alone is over the memory limit; so does
  \<open>setMemoryLimit\<close>.
\<close>

theorem ceilings_after_operations_counterexample:
  "run emptyModel
     [SetCacheSize 1, RequestThumbnail 1000 0, RequestThumbnail 2000 1,
      OnThumbnailGenerated 3000 0 (Pixmap 120 160)] = Some crowdedModel \<and>
   m_maxCacheSize crowdedModel = 1 \<and>
   length (m_thumbnails crowdedModel) = 2 \<and>
   run emptyModel
     [SetMemoryLimit 0, RequestThumbnail 1000 0, OnThumbnailGenerated 2000 0 (Pixmap 600 500)]
     = Some oversizedModel \<and>
   length (m_thumbnails oversizedModel) = 1 \<and>
   map_option m_thumbnails (cleanupCache oversizedModel 3000) = Some [] \<and>
   map_option m_thumbnails (setMemoryLimit oversizedModel 0) = Some []"
  by (simp add: crowdedModel_def oversizedModel_def run_defs loop_defs)

subsection \<open>Which entry is evicted\<close>




text \<open>
  C4. With adaptive caching on, a well-formed non-empty store and at least one recorded
  access: when the hit ratio is above 0.7, \<open>evictByAdaptivePolicy\<close> removes exactly one
  entry, one whose \<open>lastAccessed\<close> is smallest; when the hit ratio is below 0.5, it
  removes exactly one entry, one whose access count is smallest and, among those, whose
  \<open>lastAccessed\<close> is smallest. The tracked memory goes down by the entry's size.
\<close>

theorem adaptive_eviction_victim:
  assumes "store_wf s" and "m_thumbnails s \<noteq> []" and "m_adaptiveCaching s"
    and "m_cacheHits s + m_cacheMisses s \<noteq> 0"
  shows "(real_of_int (m_cacheHits s) / real_of_int (m_cacheHits s + m_cacheMisses s) > 0.7 \<longrightarrow>
          (\<exists>e \<in> set (m_thumbnails s).
             (\<forall>x \<in> set (m_thumbnails s). lastAccessed (snd e) \<le> lastAccessed (snd x)) \<and>
             set (m_thumbnails (evictByAdaptivePolicy s)) = set (m_thumbnails s) - {e} \<and>
             m_currentMemory (evictByAdaptivePolicy s) = m_currentMemory s - memorySize (snd e)))
       \<and> (real_of_int (m_cacheHits s) / real_of_int (m_cacheHits s + m_cacheMisses s) < 0.5 \<longrightarrow>
          (\<exists>e \<in> set (m_thumbnails s).
             (\<forall>x \<in> set (m_thumbnails s).
                 frequencyOf s (fst e) < frequencyOf s (fst x) \<or>
                 (frequencyOf s (fst e) = frequencyOf s (fst x) \<and>
                  lastAccessed (snd e) \<le> lastAccessed (snd x))) \<and>
             set (m_thumbnails (evictByAdaptivePolicy s)) = set (m_thumbnails s) - {e} \<and>
             m_currentMemory (evictByAdaptivePolicy s) = m_currentMemory s - memorySize (snd e)))"
proof (intro conjI impI)
  let ?r = "real_of_int (m_cacheHits s) / real_of_int (m_cacheHits s + m_cacheMisses s)"
  from assms(1) have d: "distinct (map fst (m_thumbnails s))" by (simp add: store_wf_def)
  from assms(4) have eff: "calculateCacheEfficiency s = ?r"
    by (simp add: calculateCacheEfficiency_def Let_def)
  {
    assume "?r > 0.7"
    with eff assms(3) have eq: "evictByAdaptivePolicy s = evictLeastRecentlyUsed s"
      by (simp add: evictByAdaptivePolicy_def Let_def)
    from evictLeastRecentlyUsed_removes [OF assms(2)] obtain e where e:
      "e \<in> set (m_thumbnails s)"
      "\<forall>x \<in> set (m_thumbnails s). lastAccessed (snd e) \<le> lastAccessed (snd x)"
      "evictLeastRecentlyUsed s =
         s\<lparr>m_currentMemory := m_currentMemory s - memorySize (snd e),
           m_thumbnails := AList.delete (fst e) (m_thumbnails s)\<rparr>"
      by blast
    from e(3) eq set_delete_distinct [OF d e(1)] have
      "set (m_thumbnails (evictByAdaptivePolicy s)) = set (m_thumbnails s) - {e}"
      "m_currentMemory (evictByAdaptivePolicy s) = m_currentMemory s - memorySize (snd e)"
      by simp_all
    with e(1) e(2) show "\<exists>e \<in> set (m_thumbnails s).
             (\<forall>x \<in> set (m_thumbnails s). lastAccessed (snd e) \<le> lastAccessed (snd x)) \<and>
             set (m_thumbnails (evictByAdaptivePolicy s)) = set (m_thumbnails s) - {e} \<and>
             m_currentMemory (evictByAdaptivePolicy s) = m_currentMemory s - memorySize (snd e)"
      by blast
  }
  {
    assume "?r < 0.5"
    with eff assms(3) have eq: "evictByAdaptivePolicy s = evictLeastFrequentlyUsed s"
      by (simp add: evictByAdaptivePolicy_def Let_def)
    from evictLeastFrequentlyUsed_removes [OF assms(1) assms(2)] obtain e where e:
      "e \<in> set (m_thumbnails s)"
      "\<forall>x \<in> set (m_thumbnails s).
          frequencyOf s (fst e) < frequencyOf s (fst x) \<or>
          (frequencyOf s (fst e) = frequencyOf s (fst x) \<and>
           lastAccessed (snd e) \<le> lastAccessed (snd x))"
      "evictLeastFrequentlyUsed s =
         s\<lparr>m_currentMemory := m_currentMemory s - memorySize (snd e),
           m_thumbnails := AList.delete (fst e) (m_thumbnails s),
           m_accessFrequency := AList.delete (fst e) (m_accessFrequency s)\<rparr>"
      by blast
    from e(3) eq set_delete_distinct [OF d e(1)] have
      "set (m_thumbnails (evictByAdaptivePolicy s)) = set (m_thumbnails s) - {e}"
      "m_currentMemory (evictByAdaptivePolicy s) = m_currentMemory s - memorySize (snd e)"
      by simp_all
    with e(1) e(2) show "\<exists>e \<in> set (m_thumbnails s).
             (\<forall>x \<in> set (m_thumbnails s).
                 frequencyOf s (fst e) < frequencyOf s (fst x) \<or>
                 (frequencyOf s (fst e) = frequencyOf s (fst x) \<and>
                  lastAccessed (snd e) \<le> lastAccessed (snd x))) \<and>
             set (m_thumbnails (evictByAdaptivePolicy s)) = set (m_thumbnails s) - {e} \<and>
             m_currentMemory (evictByAdaptivePolicy s) = m_currentMemory s - memorySize (snd e)"
      by blast
  }
qed

theorem adaptive_eviction_victim_witness:
  "store_wf hotModel \<and> m_thumbnails hotModel \<noteq> [] \<and> m_adaptiveCaching hotModel \<and>
   real_of_int (m_cacheHits hotModel) / real_of_int (m_cacheHits hotModel + m_cacheMisses hotModel) > 0.7 \<and>
   map fst (m_thumbnails (evictByAdaptivePolicy hotModel)) = [1, 2] \<and>
   store_wf coldModel \<and> m_thumbnails coldModel \<noteq> [] \<and> m_adaptiveCaching coldModel \<and>
   real_of_int (m_cacheHits coldModel) / real_of_int (m_cacheHits coldModel + m_cacheMisses coldModel) < 0.5 \<and>
   map fst (m_thumbnails (evictByAdaptivePolicy coldModel)) = [0, 2]"
proof -
  have hot: "store_wf hotModel" "m_thumbnails hotModel \<noteq> []" "m_adaptiveCaching hotModel"
    "m_cacheHits hotModel + m_cacheMisses hotModel \<noteq> 0"
    "real_of_int (m_cacheHits hotModel) / real_of_int (m_cacheHits hotModel + m_cacheMisses hotModel) > 0.7"
    by (simp_all add: hotModel_wf) (simp_all add: hotModel_def coldModel_fields)
  have cold: "store_wf coldModel" "m_thumbnails coldModel \<noteq> []" "m_adaptiveCaching coldModel"
    "m_cacheHits coldModel + m_cacheMisses coldModel \<noteq> 0"
    "real_of_int (m_cacheHits coldModel) / real_of_int (m_cacheHits coldModel + m_cacheMisses coldModel) < 0.5"
    by (simp_all add: coldModel_wf) (simp_all add: coldModel_fields)
  from adaptive_eviction_victim [OF hot(1-4)] hot(5) obtain e where e:
    "e \<in> set (m_thumbnails hotModel)"
    "\<forall>x \<in> set (m_thumbnails hotModel). lastAccessed (snd e) \<le> lastAccessed (snd x)"
    "set (m_thumbnails (evictByAdaptivePolicy hotModel)) = set (m_thumbnails hotModel) - {e}"
    by blast
  have h: "map fst (m_thumbnails (evictByAdaptivePolicy hotModel)) = [1, 2]"
    by (simp add: evictByAdaptivePolicy_def calculateCacheEfficiency_def
        evictLeastRecentlyUsed_def hotModel_def coldModel_fields Let_def)
  from adaptive_eviction_victim [OF cold(1-4)] cold(5) obtain e' where e':
    "e' \<in> set (m_thumbnails coldModel)"
    "set (m_thumbnails (evictByAdaptivePolicy coldModel)) = set (m_thumbnails coldModel) - {e'}"
    by blast
  have c: "map fst (m_thumbnails (evictByAdaptivePolicy coldModel)) = [0, 2]"
    by (simp add: evictByAdaptivePolicy_def calculateCacheEfficiency_def
        evictLeastFrequentlyUsed_def coldModel_fields Let_def INT_MAX_def LLONG_MAX_def)
  from hot cold h c show ?thesis by simp
qed

subsection \<open>Requests for pages that are loading or cached\<close>

lemma touch_keeps_entryState:
  "map_of xs k = Some it \<Longrightarrow>
     map (\<lambda>e. (fst e, entryState (snd e))) (AList.update k (it\<lparr>lastAccessed := t\<rparr>) xs) =
     map (\<lambda>e. (fst e, entryState (snd e))) xs"
  by (induction xs) (auto simp: entryState_def)

text \<open>
  C5. When the entry of a page is loading or holds an image, \<open>requestThumbnail\<close> makes no
  call to the generator and leaves the state of every entry (image, loading flag, error
  flag and message, size in bytes, page size) and the tracked memory as they are. For a
  loading entry without image the whole object is unchanged; for an entry with an image
  the access time and the access count of the page are updated.
\<close>

theorem request_skips_loading_or_cached:
  assumes "map_of (m_thumbnails s) pageNumber = Some it"
    and "isLoading it \<or> \<not> isNull (pixmap it)"
  shows "generatorCalls (requestThumbnail s now pageNumber) = generatorCalls s \<and>
         map (\<lambda>e. (fst e, entryState (snd e))) (m_thumbnails (requestThumbnail s now pageNumber)) =
         map (\<lambda>e. (fst e, entryState (snd e))) (m_thumbnails s) \<and>
         m_currentMemory (requestThumbnail s now pageNumber) = m_currentMemory s \<and>
         (isNull (pixmap it) \<longrightarrow> requestThumbnail s now pageNumber = s)"
  using assms
  by (auto simp: requestThumbnail_def touch_keeps_entryState updateAccessFrequency_fields)

theorem request_skips_loading_or_cached_witness:
  "isThumbnailLoading loadingModel 3 \<and>
   requestThumbnail loadingModel 5000 3 = loadingModel \<and>
   hasCachedThumbnail readyModel 3 \<and>
   generatorCalls (requestThumbnail readyModel 5000 3) = generatorCalls readyModel \<and>
   length (generatorCalls (requestThumbnail readyModel 5000 3)) = 1 \<and>
   map (\<lambda>e. (fst e, entryState (snd e))) (m_thumbnails (requestThumbnail readyModel 5000 3)) =
   map (\<lambda>e. (fst e, entryState (snd e))) (m_thumbnails readyModel) \<and>
   m_thumbnails (requestThumbnail readyModel 5000 3) \<noteq> m_thumbnails readyModel"
proof -
  have l: "isThumbnailLoading loadingModel 3"
    by (simp add: isThumbnailLoading_def loadingModel_fields)
  have r: "hasCachedThumbnail readyModel 3"
    by (simp add: hasCachedThumbnail_def readyModel_fields)
  have touched: "m_thumbnails (requestThumbnail readyModel 5000 3) \<noteq> m_thumbnails readyModel"
    by (simp add: readyModel_def run_defs)
  from request_skips_loading_or_cached [OF loadingModel_fields(1), of 5000]
  have t1: "requestThumbnail loadingModel 5000 3 = loadingModel" by simp
  from request_skips_loading_or_cached [OF readyModel_fields(1), of 5000]
  have t2: "generatorCalls (requestThumbnail readyModel 5000 3) = generatorCalls readyModel"
    "map (\<lambda>e. (fst e, entryState (snd e))) (m_thumbnails (requestThumbnail readyModel 5000 3)) =
     map (\<lambda>e. (fst e, entryState (snd e))) (m_thumbnails readyModel)"
    by simp_all
  from l r touched t1 t2 show ?thesis by (simp add: readyModel_fields)
qed

subsection \<open>Viewport priorities\<close>

text \<open>
  C6 (as the code has it). After \<open>setViewportRange(10, 15, 2)\<close> with lazy loading on and a
  document of at least 18 pages, page 12 has priority 0, pages 9 and 17 have priority 1
  and page 50 has the default priority 5. Pages 8 and 9 both lie within the margin of 2
  before page 10 and are eligible for generation; page 7 is the first page that is not.
\<close>

theorem viewport_scenario:
  assumes "m_lazyLoadingEnabled s" and "m_document s = Some d" and "numPages d \<ge> 18"
  shows "calculatePriority (setViewportRange s 10 15 2) 12 = 0 \<and>
         calculatePriority (setViewportRange s 10 15 2) 9 = 1 \<and>
         calculatePriority (setViewportRange s 10 15 2) 17 = 1 \<and>
         calculatePriority (setViewportRange s 10 15 2) 50 = 5 \<and>
         \<not> isInViewport (setViewportRange s 10 15 2) 7 \<and>
         isInViewport (setViewportRange s 10 15 2) 8 \<and>
         isInViewport (setViewportRange s 10 15 2) 9 \<and>
         \<not> shouldGenerateThumbnail (setViewportRange s 10 15 2) 7 \<and>
         shouldGenerateThumbnail (setViewportRange s 10 15 2) 8 \<and>
         shouldGenerateThumbnail (setViewportRange s 10 15 2) 9"
proof -
  have m: "min (numPages d - 1) 17 = 17" using assms(3) by simp
  show ?thesis
    using assms
    by (simp add: setViewportRange_def updateViewportPriorities_def calculatePriority_def
        isInViewport_def shouldGenerateThumbnail_def m Let_def)
qed

theorem viewport_scenario_witness:
  "m_lazyLoadingEnabled emptyModel \<and> m_document emptyModel = Some exampleDocument \<and>
   numPages exampleDocument \<ge> 18 \<and>
   calculatePriority (setViewportRange emptyModel 10 15 2) 12 = 0 \<and>
   calculatePriority (setViewportRange emptyModel 10 15 2) 9 = 1 \<and>
   calculatePriority (setViewportRange emptyModel 10 15 2) 17 = 1 \<and>
   calculatePriority (setViewportRange emptyModel 10 15 2) 50 = 5 \<and>
   \<not> isInViewport (setViewportRange emptyModel 10 15 2) 7 \<and>
   isInViewport (setViewportRange emptyModel 10 15 2) 8"
proof -
  have h: "m_lazyLoadingEnabled emptyModel" "m_document emptyModel = Some exampleDocument"
    "numPages exampleDocument \<ge> 18"
    by (simp_all add: example_defs)
  from viewport_scenario [OF h] h show ?thesis by simp
qed

text \<open>
  The scenario as the spec words it fails at page 8, which the code makes eligible.
\<close>

theorem viewport_scenario_counterexample:
  "m_lazyLoadingEnabled emptyModel \<and>
   isInViewport (setViewportRange emptyModel 10 15 2) 8 \<and>
   shouldGenerateThumbnail (setViewportRange emptyModel 10 15 2) 8"
  by (simp add: example_defs setViewportRange_def updateViewportPriorities_def Let_def)

subsection \<open>Stale callbacks\<close>

text \<open>
  C7. A completion or a failure reported for a page that has no entry in the store
  returns the object as it was: no entry is created, and the store, the tracked memory
  and every other member are unchanged.
\<close>

theorem absent_page_callback_dropped:
  "map_of (m_thumbnails s) pageNumber = None \<Longrightarrow>
     onThumbnailGenerated s now pageNumber pm = Some s \<and>
     onThumbnailError s now pageNumber err = s"
  by (simp add: onThumbnailGenerated_def onThumbnailError_def)

theorem absent_page_callback_dropped_witness:
  "map_of (m_thumbnails loadingModel) 7 = None \<and>
   m_thumbnails loadingModel \<noteq> [] \<and>
   onThumbnailGenerated loadingModel 2000 7 (Pixmap 120 160) = Some loadingModel \<and>
   onThumbnailError loadingModel 2000 7 ''decode error'' = loadingModel"
proof -
  have h: "map_of (m_thumbnails loadingModel) 7 = None"
    by (simp add: example_defs)
  have n: "m_thumbnails loadingModel \<noteq> []"
    by (simp add: example_defs)
  from absent_page_callback_dropped [OF h] h n show ?thesis by blast
qed

subsection \<open>Access counts\<close>













lemma frequencyOf_cong:
  "m_accessFrequency t = m_accessFrequency s \<Longrightarrow> frequencyOf t q = frequencyOf s q"
  by (simp add: frequencyOf_def)










subsection \<open>Invalid pages\<close>

text \<open>
  C9. For a page number that is negative or not below the page count (or when there is
  no document), \<open>requestThumbnail\<close> and \<open>refreshThumbnail\<close> return the object unchanged,
  \<open>shouldPreload\<close> is false, and \<open>data\<close> returns the invalid variant for every role and
  leaves the object unchanged.
\<close>

theorem invalid_page_noop:
  "\<not> pageInDocument s pageNumber \<Longrightarrow>
     requestThumbnail s now pageNumber = s \<and>
     refreshThumbnail s now pageNumber = s \<and>
     shouldPreload s pageNumber = False \<and>
     (\<forall>idx role. indexRow idx = pageNumber \<longrightarrow> data s now idx role = (Invalid, s))"
  by (simp add: requestThumbnail_def refreshThumbnail_def shouldPreload_def data_def)

theorem invalid_page_noop_witness:
  "\<not> pageInDocument loadingModel 100 \<and>
   requestThumbnail loadingModel 2000 100 = loadingModel \<and>
   refreshThumbnail loadingModel 2000 100 = loadingModel \<and>
   shouldPreload loadingModel 100 = False \<and>
   data loadingModel 2000 \<lparr>indexRow = 100, indexColumn = 0, indexHasModel = True\<rparr> PixmapRole
     = (Invalid, loadingModel) \<and>
   \<not> pageInDocument loadingModel (- 1) \<and>
   requestThumbnail loadingModel 2000 (- 1) = loadingModel"
proof -
  have h: "\<not> pageInDocument loadingModel 100" "\<not> pageInDocument loadingModel (- 1)"
    by (simp_all add: example_defs)
  from invalid_page_noop [OF h(1)] invalid_page_noop [OF h(2)] h show ?thesis by simp
qed

subsection \<open>Cache efficiency\<close>

text \<open>
  C10. When the hit and the miss counter are both zero, \<open>calculateCacheEfficiency\<close>
  returns 1 without dividing, and the adaptive policy evicts by recency.
\<close>

theorem efficiency_of_fresh_cache:
  "m_cacheHits s = 0 \<Longrightarrow> m_cacheMisses s = 0 \<Longrightarrow>
     calculateCacheEfficiency s = 1 \<and> evictByAdaptivePolicy s = evictLeastRecentlyUsed s"
  by (simp add: calculateCacheEfficiency_def evictByAdaptivePolicy_def)

theorem efficiency_of_fresh_cache_witness:
  "m_cacheHits loadingModel = 0 \<and> m_cacheMisses loadingModel = 0 \<and>
   m_adaptiveCaching loadingModel \<and>
   calculateCacheEfficiency loadingModel = 1 \<and>
   evictByAdaptivePolicy loadingModel = evictLeastRecentlyUsed loadingModel"
proof -
  have h: "m_cacheHits loadingModel = 0" "m_cacheMisses loadingModel = 0"
    "m_adaptiveCaching loadingModel"
    by (simp_all add: example_defs)
  from efficiency_of_fresh_cache [OF h(1) h(2)] h show ?thesis by simp
qed


end
